theory Spec2Isabelle
  imports Complex_Main "HOL-Library.AList" "HOL-Library.Multiset" "HOL-Library.Sublist"
begin

section \<open>The summary endpoint of \<open>web/app.js\<close>\<close>

text \<open>
  The development embeds the summary computation of \<open>GET /api/videos/:id/summary\<close>
  (\<open>web/app.js\<close>, lines 215 to 374): the loop that groups the face and keyword
  detections of the images of a video, and the local function \<open>filterOccurrences\<close>
  that filters, ranks and truncates the groups.

  Conventions of the embedding.
  \<^item> A plain JavaScript object used as a dictionary is an association list of its own
    properties in creation order, with distinct keys. \<open>Object.keys\<close> and the
    properties inherited from \<open>Object.prototype\<close> are modelled below.
  \<^item> Scores are \<open>real\<close>: the scores of the source are finite doubles, on which
    \<open>>=\<close> and the sign of a difference agree with the reals they denote. Every
    identity and every keyword detection is taken to have a numeric score.
  \<^item> The occurrence counts of the accessor are \<open>int\<close>.
  \<^item> \<open>Array.prototype.sort\<close> is the stable sort of the language standard since
    ECMAScript 2019.
  \<^item> A runtime exception is the left summand of a sum type.
\<close>

subsection \<open>JavaScript objects and arrays\<close>

datatype error = TypeError | ConfigurationError

text \<open>
  \<open>TypeError\<close> is the exception of the runtime for calling or reading through
  \<open>undefined\<close>. \<open>ConfigurationError\<close> is the error kind the specification names;
  no definition of this theory produces it, as no statement of the source raises it.
\<close>

type_synonym 'v js_object = "(string \<times> 'v) list"

definition isDigit :: "char \<Rightarrow> bool" where
  "isDigit c \<longleftrightarrow> 48 \<le> (of_char c :: int) \<and> (of_char c :: int) \<le> 57"

definition decimalValue :: "string \<Rightarrow> int" where
  "decimalValue s = foldl (\<lambda>n c. 10 * n + ((of_char c :: int) - 48)) 0 s"

text \<open>
  An array index is a canonical decimal numeral (no leading zero) below \<open>2^32 - 1\<close>.
\<close>

definition isArrayIndex :: "string \<Rightarrow> bool" where
  "isArrayIndex s \<longleftrightarrow>
     s \<noteq> [] \<and> list_all isDigit s \<and> (s = ''0'' \<or> hd s \<noteq> CHR ''0'') \<and>
     decimalValue s < 4294967295"

text \<open>
  \<open>Object.keys(o)\<close>: the own keys that are array indices in ascending numeric order,
  then the other keys in creation order.
\<close>

definition Object_keys :: "'v js_object \<Rightarrow> string list" where
  "Object_keys obj =
     sort_key decimalValue (filter isArrayIndex (map fst obj)) @
     filter (\<lambda>k. \<not> isArrayIndex k) (map fst obj)"

text \<open>
  The names every object literal \<open>{}\<close> inherits from \<open>Object.prototype\<close>. Reading
  one of them on an object that has no own property of that name gives a function (or,
  for \<open>__proto__\<close>, the prototype object): a truthy value that has no \<open>push\<close>.
\<close>

definition objectPrototypeNames :: "string list" where
  "objectPrototypeNames =
     [''constructor'', ''__defineGetter__'', ''__defineSetter__'', ''hasOwnProperty'',
      ''__lookupGetter__'', ''__lookupSetter__'', ''isPrototypeOf'',
      ''propertyIsEnumerable'', ''toString'', ''valueOf'', ''__proto__'',
      ''toLocaleString'']"

text \<open>
  \<open>Array.prototype.sort(compare)\<close> is a stable sort: \<open>a\<close> is put before \<open>b\<close> when
  \<open>compare(a, b) < 0\<close>, and elements that compare equal keep their order. For a
  comparator that is a difference of scores the result is the one of this insertion sort.
\<close>

fun insertSorted :: "('a \<Rightarrow> 'a \<Rightarrow> real) \<Rightarrow> 'a \<Rightarrow> 'a list \<Rightarrow> 'a list" where
  "insertSorted compare x [] = [x]"
| "insertSorted compare x (y # ys) =
     (if compare x y \<le> 0 then x # y # ys else y # insertSorted compare x ys)"

fun js_sort :: "('a \<Rightarrow> 'a \<Rightarrow> real) \<Rightarrow> 'a list \<Rightarrow> 'a list" where
  "js_sort compare [] = []"
| "js_sort compare (x # xs) = insertSorted compare x (js_sort compare xs)"

text \<open>
  \<open>array.slice(0, end)\<close>: a negative \<open>end\<close> counts from the end of the array.
\<close>

definition slice0 :: "int \<Rightarrow> 'a list \<Rightarrow> 'a list" where
  "slice0 end xs =
     (if end < 0 then take (nat (int (length xs) + end)) xs else take (nat end) xs)"

subsection \<open>\<open>filterOccurrences\<close>\<close>

text \<open>
  The second argument of \<open>filterOccurrences\<close>: the score function and the thresholds.
  \<open>maximumOccurrenceCount\<close> is \<open>None\<close> when the property is absent.
\<close>

record 'o accessor =
  score :: "'o \<Rightarrow> real"
  minimumOccurrence :: int
  minimumScore :: real
  minimumScoreOccurrence :: int
  maximumOccurrenceCount :: "int option"

text \<open>An element of the returned array: \<open>{ occurrences: [...] }\<close>.\<close>

record 'o entry =
  occurrences :: "'o list"

text \<open>Lines 295 to 300: the counting loop.\<close>

definition numberOfOccurrencesAboveThreshold :: "'o accessor \<Rightarrow> 'o list \<Rightarrow> int" where
  "numberOfOccurrencesAboveThreshold acc occs =
     foldl (\<lambda>n occur. if score acc occur \<ge> minimumScore acc then n + 1 else n) 0 occs"

text \<open>Lines 290 to 308: the value of \<open>keepIt\<close> for one property.\<close>

definition keepIt :: "'o accessor \<Rightarrow> 'o list \<Rightarrow> bool" where
  "keepIt acc occs =
     (if int (length occs) \<ge> minimumOccurrence acc
      then (if numberOfOccurrencesAboveThreshold acc occs \<ge> minimumScoreOccurrence acc
            then True else False)
      else False)"

text \<open>Lines 314 to 316: the comparator of the sort of one group, higher score first.\<close>

definition compareOccurrences :: "'o accessor \<Rightarrow> 'o \<Rightarrow> 'o \<Rightarrow> real" where
  "compareOccurrences acc oneOccurrence anotherOccurrence =
     score acc anotherOccurrence - score acc oneOccurrence"

text \<open>
  Lines 289 to 320: the body of the first loop for one property. It deletes the property
  or replaces its array by the first element of the sorted array. The loop visits own
  keys only, so that the lookup finds the property (the case \<open>None\<close> does not arise).
\<close>

definition filterProperty :: "'o accessor \<Rightarrow> 'o list js_object \<Rightarrow> string \<Rightarrow> 'o list js_object" where
  "filterProperty acc obj property =
     (case map_of obj property of
        None \<Rightarrow> obj
      | Some occs \<Rightarrow>
          if \<not> keepIt acc occs then AList.delete property obj
          else AList.update property (take 1 (js_sort (compareOccurrences acc) occs)) obj)"

text \<open>
  Lines 288 to 321: the first loop, over the keys the object has when the loop starts.
  The value is the state of the object \<open>occurrences\<close> after the loop.
\<close>

definition filterPass :: "'o accessor \<Rightarrow> 'o list js_object \<Rightarrow> 'o list js_object" where
  "filterPass acc obj = foldl (filterProperty acc) obj (Object_keys obj)"

text \<open>Lines 323 to 328: one entry per remaining property, in the order of its keys.\<close>

definition collectResult :: "'o list js_object \<Rightarrow> 'o entry list" where
  "collectResult obj =
     map (\<lambda>property. \<lparr>occurrences = the (map_of obj property)\<rparr>) (Object_keys obj)"

text \<open>
  Lines 330 to 333: the sort of the entries by the score of \<open>occurrences[0]\<close>. The
  comparator reads a property of \<open>occurrences[0]\<close>, which is \<open>undefined\<close> for an empty
  array: the score functions of the endpoint then raise a \<open>TypeError\<close>. The sort calls
  the comparator on every element as soon as there are two of them.
\<close>

definition compareEntries :: "'o accessor \<Rightarrow> 'o entry \<Rightarrow> 'o entry \<Rightarrow> real" where
  "compareEntries acc oneOccurrence anotherOccurrence =
     score acc (occurrences anotherOccurrence ! 0) - score acc (occurrences oneOccurrence ! 0)"

definition sortResult :: "'o accessor \<Rightarrow> 'o entry list \<Rightarrow> error + 'o entry list" where
  "sortResult acc result =
     (if length result \<ge> 2 \<and> list_ex (\<lambda>e. occurrences e = []) result
      then Inl TypeError
      else Inr (js_sort (compareEntries acc) result))"

text \<open>
  Lines 335 to 337: the cap. The guard is the truthiness of \<open>maximumOccurrenceCount\<close>:
  an absent property and the number \<open>0\<close> are both falsy.
\<close>

definition truncateResult :: "'o accessor \<Rightarrow> 'a list \<Rightarrow> 'a list" where
  "truncateResult acc result =
     (case maximumOccurrenceCount acc of
        None \<Rightarrow> result
      | Some n \<Rightarrow>
          if n \<noteq> 0 \<and> int (length result) > n then slice0 n result else result)"

text \<open>Lines 287 to 340: the value \<open>filterOccurrences\<close> returns.\<close>

definition filterOccurrences :: "'o accessor \<Rightarrow> 'o list js_object \<Rightarrow> error + 'o entry list" where
  "filterOccurrences acc obj =
     (case sortResult acc (collectResult (filterPass acc obj)) of
        Inl e \<Rightarrow> Inl e
      | Inr result \<Rightarrow> Inr (truncateResult acc result))"

subsection \<open>Images, detections and the collecting loop\<close>

text \<open>
  The detections are objects the images refer to, and the loop writes to them. They live
  in a store: a face or keyword detection is an address, \<open>faceStore\<close> and \<open>keywordStore\<close>
  give the object at an address. The three properties the loop assigns are absent
  (\<open>None\<close>) or hold a value; an absent \<open>frame_timecode\<close> leaves \<open>timecode\<close> without a
  value.
\<close>

record decorated =
  image_id :: "string option"
  image_url :: "string option"
  timecode :: "real option"

record face_identity =
  name :: "string option"
  identity_score :: real

record face = decorated +
  identity :: "face_identity option"

text \<open>\<open>keyword_class\<close> and \<open>keyword_score\<close> are the properties \<open>class\<close> and \<open>score\<close>.\<close>

record keyword = decorated +
  keyword_class :: string
  keyword_score :: real

record analysis =
  face_detection :: "nat list option"
  image_keywords :: "nat list option"

text \<open>\<open>doc_id\<close> is the property \<open>_id\<close> of an image document.\<close>

record image =
  doc_id :: string
  frame_timecode :: "real option"
  analysis :: "analysis option"

record request =
  protocol :: string
  hostname :: string

record state =
  faceStore :: "nat \<Rightarrow> face"
  keywordStore :: "nat \<Rightarrow> keyword"
  peopleNameToOccurrences :: "nat list js_object"
  keywordToOccurrences :: "nat list js_object"

text \<open>
  The value of \<open>obj[key]\<close> on an object literal: an own property, a property inherited
  from \<open>Object.prototype\<close>, or \<open>undefined\<close>.
\<close>

datatype 'v lookup = Own 'v | Inherited | Undefined

definition getProperty :: "'v js_object \<Rightarrow> string \<Rightarrow> 'v lookup" where
  "getProperty obj key =
     (case map_of obj key of
        Some v \<Rightarrow> Own v
      | None \<Rightarrow> if key \<in> set objectPrototypeNames then Inherited else Undefined)"

text \<open>
  Lines 262 to 265 and 275 to 278: \<open>if (!obj[key]) { obj[key] = []; } obj[key].push(a);\<close>.
  An array and an inherited property are truthy; an inherited property has no \<open>push\<close>.
\<close>

definition pushOccurrence :: "nat list js_object \<Rightarrow> string \<Rightarrow> nat \<Rightarrow> error + nat list js_object" where
  "pushOccurrence obj key a =
     (let obj1 = (case getProperty obj key of
                    Undefined \<Rightarrow> AList.update key [] obj
                  | _ \<Rightarrow> obj)
      in case getProperty obj1 key of
           Own arr \<Rightarrow> Inr (AList.update key (arr @ [a]) obj1)
         | _ \<Rightarrow> Inl TypeError)"

definition imageUrl :: "request \<Rightarrow> image \<Rightarrow> string" where
  "imageUrl req img = protocol req @ ''://'' @ hostname req @ ''/images/image/'' @ doc_id img @ ''.jpg''"

text \<open>
  Lines 266 to 268 and 279 to 281: the three assignments to the detection object.
\<close>

definition decorate :: "request \<Rightarrow> image \<Rightarrow> 'a decorated_scheme \<Rightarrow> 'a decorated_scheme" where
  "decorate req img d =
     d\<lparr>image_id := Some (doc_id img),
       image_url := Some (imageUrl req img),
       timecode := frame_timecode img\<rparr>"

text \<open>\<open>array.forEach\<close> with a callback that may throw: the first exception ends the loop.\<close>

fun forEach :: "('s \<Rightarrow> 'a \<Rightarrow> error + 's) \<Rightarrow> 'a list \<Rightarrow> 's \<Rightarrow> error + 's" where
  "forEach f [] s = Inr s"
| "forEach f (x # xs) s = (case f s x of Inl e \<Rightarrow> Inl e | Inr s' \<Rightarrow> forEach f xs s')"

text \<open>
  Lines 260 to 270: the callback for one face of an image. The push comes first, so that
  an exception of the push leaves the face as it was.
\<close>

definition collectFace :: "request \<Rightarrow> image \<Rightarrow> state \<Rightarrow> nat \<Rightarrow> error + state" where
  "collectFace req img st a =
     (case identity (faceStore st a) of
        None \<Rightarrow> Inr st
      | Some ident \<Rightarrow>
          (case name ident of
             None \<Rightarrow> Inr st
           | Some n \<Rightarrow>
               if n = [] then Inr st
               else (case pushOccurrence (peopleNameToOccurrences st) n a of
                       Inl e \<Rightarrow> Inl e
                     | Inr people \<Rightarrow>
                         Inr (st\<lparr>peopleNameToOccurrences := people,
                                 faceStore := (faceStore st)
                                   (a := decorate req img (faceStore st a))\<rparr>))))"

text \<open>Lines 274 to 282: the callback for one keyword of an image.\<close>

definition collectKeyword :: "request \<Rightarrow> image \<Rightarrow> state \<Rightarrow> nat \<Rightarrow> error + state" where
  "collectKeyword req img st a =
     (case pushOccurrence (keywordToOccurrences st) (keyword_class (keywordStore st a)) a of
        Inl e \<Rightarrow> Inl e
      | Inr groups \<Rightarrow>
          Inr (st\<lparr>keywordToOccurrences := groups,
                  keywordStore := (keywordStore st)
                    (a := decorate req img (keywordStore st a))\<rparr>))"

text \<open>Lines 258 to 284: the callback for one image.\<close>

definition collectImage :: "request \<Rightarrow> state \<Rightarrow> image \<Rightarrow> error + state" where
  "collectImage req st img =
     (case (case analysis img of
              None \<Rightarrow> Inr st
            | Some an \<Rightarrow>
                (case face_detection an of
                   None \<Rightarrow> Inr st
                 | Some fs \<Rightarrow> forEach (collectFace req img) fs st)) of
        Inl e \<Rightarrow> Inl e
      | Inr st1 \<Rightarrow>
          (case analysis img of
             None \<Rightarrow> Inr st1
           | Some an \<Rightarrow>
               (case image_keywords an of
                  None \<Rightarrow> Inr st1
                | Some ks \<Rightarrow> forEach (collectKeyword req img) ks st1)))"

text \<open>
  Lines 254 to 284: both maps start empty; \<open>fs\<close> and \<open>ks\<close> are the detection objects
  as the storage returned them.
\<close>

definition collect :: "request \<Rightarrow> image list \<Rightarrow> (nat \<Rightarrow> face) \<Rightarrow> (nat \<Rightarrow> keyword) \<Rightarrow> error + state" where
  "collect req images fs ks =
     forEach (collectImage req) images
       \<lparr>faceStore = fs, keywordStore = ks, peopleNameToOccurrences = [], keywordToOccurrences = []\<rparr>"

subsection \<open>The thresholds of the endpoint and the summary\<close>

record options =
  minimumFaceOccurrence :: int
  minimumFaceScore :: real
  minimumFaceScoreOccurrence :: int
  minimumLabelOccurrence :: int
  minimumLabelScore :: real
  minimumLabelScoreOccurrence :: int
  maximumLabelCount :: int
  minimumKeywordOccurrence :: int
  minimumKeywordScore :: real
  minimumKeywordScoreOccurrence :: int
  maximumKeywordCount :: int

text \<open>Lines 217 to 229.\<close>

definition summaryOptions :: options where
  "summaryOptions =
     \<lparr>minimumFaceOccurrence = 3,
      minimumFaceScore = 0.85,
      minimumFaceScoreOccurrence = 2,
      minimumLabelOccurrence = 5,
      minimumLabelScore = 0.70,
      minimumLabelScoreOccurrence = 1,
      maximumLabelCount = 5,
      minimumKeywordOccurrence = 1,
      minimumKeywordScore = 0.60,
      minimumKeywordScoreOccurrence = 1,
      maximumKeywordCount = 5\<rparr>"

text \<open>
  Lines 343 to 348: the accessor of the faces. It has no \<open>maximumOccurrenceCount\<close>.
  The score is \<open>face.identity.score\<close>; every face of a group has an identity
  (lemma \<open>collect_people_named\<close> below).
\<close>

definition faceAccessor :: "options \<Rightarrow> (nat \<Rightarrow> face) \<Rightarrow> nat accessor" where
  "faceAccessor opts fs =
     \<lparr>score = (\<lambda>a. identity_score (the (identity (fs a)))),
      minimumOccurrence = minimumFaceOccurrence opts,
      minimumScore = minimumFaceScore opts,
      minimumScoreOccurrence = minimumFaceScoreOccurrence opts,
      maximumOccurrenceCount = None\<rparr>"

text \<open>Lines 352 to 358: the accessor of the keyword detections.\<close>

definition keywordAccessor :: "options \<Rightarrow> (nat \<Rightarrow> keyword) \<Rightarrow> nat accessor" where
  "keywordAccessor opts ks =
     \<lparr>score = (\<lambda>a. keyword_score (ks a)),
      minimumOccurrence = minimumKeywordOccurrence opts,
      minimumScore = minimumKeywordScore opts,
      minimumScoreOccurrence = minimumKeywordScoreOccurrence opts,
      maximumOccurrenceCount = Some (maximumKeywordCount opts)\<rparr>"

text \<open>
  The payload of the response, without the video document: the two filtered lists. The
  detections they refer to are read in the final store.
\<close>

record summary =
  summary_face_detection :: "nat entry list"
  summary_image_keywords :: "nat entry list"

text \<open>Lines 251 to 364: the third task of the waterfall, on the images of the video.\<close>

definition summarize :: "request \<Rightarrow> image list \<Rightarrow> (nat \<Rightarrow> face) \<Rightarrow> (nat \<Rightarrow> keyword) \<Rightarrow> error + (state \<times> summary)" where
  "summarize req images fs ks =
     (case collect req images fs ks of
        Inl e \<Rightarrow> Inl e
      | Inr st \<Rightarrow>
          (case filterOccurrences (faceAccessor summaryOptions (faceStore st))
                  (peopleNameToOccurrences st) of
             Inl e \<Rightarrow> Inl e
           | Inr people \<Rightarrow>
               (case filterOccurrences (keywordAccessor summaryOptions (keywordStore st))
                       (keywordToOccurrences st) of
                  Inl e \<Rightarrow> Inl e
                | Inr kws \<Rightarrow>
                    Inr (st, \<lparr>summary_face_detection = people,
                              summary_image_keywords = kws\<rparr>))))"

subsection \<open>Notions used to state the properties\<close>

text \<open>
  What lines 314 to 319 leave in a kept property: the first element of the sorted group.
\<close>

definition bestOf :: "'o accessor \<Rightarrow> 'o list \<Rightarrow> 'o list" where
  "bestOf acc occs = take 1 (js_sort (compareOccurrences acc) occs)"

text \<open>
  The object after the first loop has handled the keys of \<open>S\<close>: a handled property is
  deleted or reduced, the others are as they were.
\<close>

definition partialPass :: "'o accessor \<Rightarrow> string set \<Rightarrow> 'o list js_object \<Rightarrow> 'o list js_object" where
  "partialPass acc S obj =
     concat (map (\<lambda>(k, occs).
                    if k \<in> S then (if keepIt acc occs then [(k, bestOf acc occs)] else [])
                    else [(k, occs)]) obj)"

text \<open>The score the final sort reads in an entry: \<open>accessor.score(e.occurrences[0])\<close>.\<close>

definition entryScore :: "'o accessor \<Rightarrow> 'o entry \<Rightarrow> real" where
  "entryScore acc e = score acc (occurrences e ! 0)"

text \<open>
  The entries of the returned array do not carry their key. \<open>keptEntries\<close> is the
  returned array with, next to each entry, the key of the property it was built from
  (lemma \<open>filterOccurrences_keptEntries\<close>); \<open>keptKeys\<close> are the keys of the returned
  entries, in the order of the returned array.
\<close>

definition keyedResult :: "'o list js_object \<Rightarrow> (string \<times> 'o entry) list" where
  "keyedResult obj =
     map (\<lambda>property. (property, \<lparr>occurrences = the (map_of obj property)\<rparr>)) (Object_keys obj)"

definition keptEntries :: "'o accessor \<Rightarrow> 'o list js_object \<Rightarrow> (string \<times> 'o entry) list" where
  "keptEntries acc obj =
     truncateResult acc
       (js_sort (\<lambda>a b. compareEntries acc (snd a) (snd b)) (keyedResult (filterPass acc obj)))"

definition keptKeys :: "'o accessor \<Rightarrow> 'o list js_object \<Rightarrow> string list" where
  "keptKeys acc obj = map fst (keptEntries acc obj)"

text \<open>
  A group map as the collecting loop builds it: the keys are distinct and no group is
  empty, since a group is created when its first occurrence is pushed.
\<close>

definition groupsWellFormed :: "'o list js_object \<Rightarrow> bool" where
  "groupsWellFormed obj \<longleftrightarrow> distinct (map fst obj) \<and> list_all (\<lambda>p. snd p \<noteq> []) obj"

text \<open>
  A call of the filter in which no kept group can be empty: the keys are distinct, and
  either no group is empty or one of the two counts asked for is at least 1 (as the data
  model of the thresholds requires).
\<close>

definition callWellFormed :: "'o accessor \<Rightarrow> 'o list js_object \<Rightarrow> bool" where
  "callWellFormed acc obj \<longleftrightarrow>
     distinct (map fst obj) \<and>
     (list_all (\<lambda>p. snd p \<noteq> []) obj \<or>
      minimumOccurrence acc \<ge> 1 \<or> minimumScoreOccurrence acc \<ge> 1)"

text \<open>The two bars of the filter, in the words of the specification.\<close>

definition passesBothBars :: "'o accessor \<Rightarrow> 'o list \<Rightarrow> bool" where
  "passesBothBars acc occs \<longleftrightarrow>
     int (length occs) \<ge> minimumOccurrence acc \<and>
     int (length (filter (\<lambda>occur. score acc occur \<ge> minimumScore acc) occs))
       \<ge> minimumScoreOccurrence acc"

text \<open>The guard of line 335 is false: the returned array is not cut.\<close>

definition notTruncated :: "'o accessor \<Rightarrow> 'o list js_object \<Rightarrow> bool" where
  "notTruncated acc obj =
     (case maximumOccurrenceCount acc of
        None \<Rightarrow> True
      | Some n \<Rightarrow> \<not> (n \<noteq> 0 \<and> int (length (filterPass acc obj)) > n))"

text \<open>
  The guard of line 261, \<open>face.identity && face.identity.name\<close>: the face has an
  identity whose name is a non-empty string.
\<close>

definition hasName :: "face \<Rightarrow> bool" where
  "hasName f =
     (case identity f of
        None \<Rightarrow> False
      | Some ident \<Rightarrow> (case name ident of None \<Rightarrow> False | Some n \<Rightarrow> n \<noteq> []))"

text \<open>The detections an image refers to: the arrays the loops of lines 260 and 274 visit.\<close>

definition faceAddresses :: "image \<Rightarrow> nat list" where
  "faceAddresses img =
     (case analysis img of
        None \<Rightarrow> []
      | Some an \<Rightarrow> (case face_detection an of None \<Rightarrow> [] | Some fs \<Rightarrow> fs))"

definition keywordAddresses :: "image \<Rightarrow> nat list" where
  "keywordAddresses img =
     (case analysis img of
        None \<Rightarrow> []
      | Some an \<Rightarrow> (case image_keywords an of None \<Rightarrow> [] | Some ks \<Rightarrow> ks))"

text \<open>The name of a face, when it has an identity with a name.\<close>

definition faceName :: "face \<Rightarrow> string option" where
  "faceName f = (case identity f of None \<Rightarrow> None | Some ident \<Rightarrow> name ident)"

text \<open>
  What holds of the two group maps and of the two stores all along the collecting loop,
  for the stores \<open>fs\<close> and \<open>ks\<close> the loop started from: a key is not a name
  inherited from \<open>Object.prototype\<close>, a group is not empty and holds detections of the
  images filed under their name or class, and an object of the store is as it was or
  carries the three properties of an image that refers to it.
\<close>

definition peopleInvariant :: "image list \<Rightarrow> (nat \<Rightarrow> face) \<Rightarrow> nat list js_object \<Rightarrow> bool" where
  "peopleInvariant images fs obj \<longleftrightarrow>
     distinct (map fst obj) \<and>
     (\<forall>k as. map_of obj k = Some as \<longrightarrow>
        k \<notin> set objectPrototypeNames \<and> as \<noteq> [] \<and>
        (\<forall>a \<in> set as. faceName (fs a) = Some k \<and> k \<noteq> [] \<and>
           (\<exists>img \<in> set images. a \<in> set (faceAddresses img))))"

definition keywordInvariant :: "image list \<Rightarrow> (nat \<Rightarrow> keyword) \<Rightarrow> nat list js_object \<Rightarrow> bool" where
  "keywordInvariant images ks obj \<longleftrightarrow>
     distinct (map fst obj) \<and>
     (\<forall>k as. map_of obj k = Some as \<longrightarrow>
        k \<notin> set objectPrototypeNames \<and> as \<noteq> [] \<and>
        (\<forall>a \<in> set as. keyword_class (ks a) = k \<and>
           (\<exists>img \<in> set images. a \<in> set (keywordAddresses img))))"

definition faceStoreInvariant :: "request \<Rightarrow> image list \<Rightarrow> (nat \<Rightarrow> face) \<Rightarrow> (nat \<Rightarrow> face) \<Rightarrow> bool" where
  "faceStoreInvariant req images fs store \<longleftrightarrow>
     (\<forall>a. store a = fs a \<or>
          (hasName (fs a) \<and>
           (\<exists>img \<in> set images. a \<in> set (faceAddresses img) \<and> store a = decorate req img (fs a))))"

definition keywordStoreInvariant :: "request \<Rightarrow> image list \<Rightarrow> (nat \<Rightarrow> keyword) \<Rightarrow> (nat \<Rightarrow> keyword) \<Rightarrow> bool" where
  "keywordStoreInvariant req images ks store \<longleftrightarrow>
     (\<forall>a. store a = ks a \<or>
          (\<exists>img \<in> set images. a \<in> set (keywordAddresses img) \<and> store a = decorate req img (ks a)))"

definition collected :: "request \<Rightarrow> image list \<Rightarrow> (nat \<Rightarrow> face) \<Rightarrow> (nat \<Rightarrow> keyword) \<Rightarrow> state \<Rightarrow> bool" where
  "collected req images fs ks st \<longleftrightarrow>
     peopleInvariant images fs (peopleNameToOccurrences st) \<and>
     keywordInvariant images ks (keywordToOccurrences st) \<and>
     faceStoreInvariant req images fs (faceStore st) \<and>
     keywordStoreInvariant req images ks (keywordStore st)"

text \<open>
  The detection at an address has been visited: it is in the group of its name or class
  and carries the three properties of an image that refers to it.
\<close>

definition faceVisited :: "request \<Rightarrow> image list \<Rightarrow> (nat \<Rightarrow> face) \<Rightarrow> nat \<Rightarrow> state \<Rightarrow> bool" where
  "faceVisited req images fs a st \<longleftrightarrow>
     (\<exists>k as. faceName (fs a) = Some k \<and> map_of (peopleNameToOccurrences st) k = Some as \<and> a \<in> set as) \<and>
     (\<exists>img \<in> set images. a \<in> set (faceAddresses img) \<and> faceStore st a = decorate req img (fs a))"

definition keywordVisited :: "request \<Rightarrow> image list \<Rightarrow> (nat \<Rightarrow> keyword) \<Rightarrow> nat \<Rightarrow> state \<Rightarrow> bool" where
  "keywordVisited req images ks a st \<longleftrightarrow>
     (\<exists>as. map_of (keywordToOccurrences st) (keyword_class (ks a)) = Some as \<and> a \<in> set as) \<and>
     (\<exists>img \<in> set images. a \<in> set (keywordAddresses img) \<and> keywordStore st a = decorate req img (ks a))"

subsection \<open>A video of three frames\<close>

text \<open>
  The faces 0, 1 and 2 are \<open>Alice\<close>, with the scores 0.9, 0.95 and 0.8; the face 3 has
  an identity without a name and the face 4 an empty name, both with the score 0.99; the
  other addresses hold faces without identity. The keyword detections 0 and 1 are \<open>cat\<close>
  with the scores 0.65 and 0.5; the keyword detection 2 has the class \<open>constructor\<close>.
\<close>

definition exampleRequest :: request where
  "exampleRequest = \<lparr>protocol = ''https'', hostname = ''example.org''\<rparr>"

definition exampleFace :: "string option \<Rightarrow> real \<Rightarrow> face" where
  "exampleFace n s =
     \<lparr>image_id = None, image_url = None, timecode = None,
      identity = Some \<lparr>name = n, identity_score = s\<rparr>\<rparr>"

definition exampleFaces :: "nat \<Rightarrow> face" where
  "exampleFaces a =
     (if a = 0 then exampleFace (Some ''Alice'') 0.9
      else if a = 1 then exampleFace (Some ''Alice'') 0.95
      else if a = 2 then exampleFace (Some ''Alice'') 0.8
      else if a = 3 then exampleFace None 0.99
      else if a = 4 then exampleFace (Some []) 0.99
      else \<lparr>image_id = None, image_url = None, timecode = None, identity = None\<rparr>)"

definition exampleKeyword :: "string \<Rightarrow> real \<Rightarrow> keyword" where
  "exampleKeyword c s =
     \<lparr>image_id = None, image_url = None, timecode = None,
      keyword_class = c, keyword_score = s\<rparr>"

definition exampleKeywords :: "nat \<Rightarrow> keyword" where
  "exampleKeywords a =
     (if a = 0 then exampleKeyword ''cat'' 0.65
      else if a = 1 then exampleKeyword ''cat'' 0.5
      else exampleKeyword ''constructor'' 0.9)"

definition exampleImages :: "image list" where
  "exampleImages =
     [\<lparr>doc_id = ''f1'', frame_timecode = Some 0,
       analysis = Some \<lparr>face_detection = Some [0, 3], image_keywords = Some [0]\<rparr>\<rparr>,
      \<lparr>doc_id = ''f2'', frame_timecode = Some 1,
       analysis = Some \<lparr>face_detection = Some [1, 4], image_keywords = Some [1]\<rparr>\<rparr>,
      \<lparr>doc_id = ''f3'', frame_timecode = None,
       analysis = Some \<lparr>face_detection = Some [2], image_keywords = None\<rparr>\<rparr>]"

text \<open>A fourth frame, whose only keyword has the class \<open>constructor\<close>.\<close>

definition constructorImage :: image where
  "constructorImage =
     \<lparr>doc_id = ''f4'', frame_timecode = Some 2,
      analysis = Some \<lparr>face_detection = None, image_keywords = Some [2]\<rparr>\<rparr>"


section \<open>Properties of the filter\<close>

subsection \<open>The first loop in closed form\<close>

lemma count_foldl:
  "foldl (\<lambda>n occur. if P occur then n + 1 else n) (m::int) occs = m + int (length (filter P occs))"
  by (induction occs arbitrary: m) auto

lemma numberOfOccurrencesAboveThreshold_eq:
  "numberOfOccurrencesAboveThreshold acc occs =
     int (length (filter (\<lambda>occur. score acc occur \<ge> minimumScore acc) occs))"
  unfolding numberOfOccurrencesAboveThreshold_def by (simp add: count_foldl)

lemma keepIt_iff: "keepIt acc occs \<longleftrightarrow> passesBothBars acc occs"
  by (simp add: keepIt_def passesBothBars_def numberOfOccurrencesAboveThreshold_eq)

lemma partialPass_Nil [simp]: "partialPass acc S [] = []"
  by (simp add: partialPass_def)

lemma partialPass_Cons:
  "partialPass acc S ((k, occs) # obj) =
     (if k \<in> S then (if keepIt acc occs then [(k, bestOf acc occs)] else []) else [(k, occs)])
     @ partialPass acc S obj"
  by (simp add: partialPass_def)

lemma partialPass_empty [simp]: "partialPass acc {} obj = obj"
  by (induction obj) (auto simp: partialPass_Cons)

lemma partialPass_key: "(k, v) \<in> set (partialPass acc S obj) \<Longrightarrow> k \<in> fst ` set obj"
  by (induction obj) (auto simp: partialPass_Cons split: if_splits)

lemma partialPass_insert_absent:
  "k \<notin> fst ` set obj \<Longrightarrow> partialPass acc (insert k S) obj = partialPass acc S obj"
  by (induction obj) (auto simp: partialPass_Cons)

lemma map_of_partialPass:
  "k \<notin> S \<Longrightarrow> map_of (partialPass acc S obj) k = map_of obj k"
  by (induction obj) (auto simp: partialPass_Cons)

lemma delete_absent: "k \<notin> fst ` set al \<Longrightarrow> AList.delete k al = al"
  by (induction al) auto

lemma delete_partialPass:
  "k \<notin> S \<Longrightarrow> distinct (map fst obj) \<Longrightarrow> map_of obj k = Some occs \<Longrightarrow> \<not> keepIt acc occs \<Longrightarrow>
   AList.delete k (partialPass acc S obj) = partialPass acc (insert k S) obj"
proof (induction obj)
  case Nil
  then show ?case by simp
next
  case (Cons p obj)
  obtain k' v where p: "p = (k', v)" by (cases p)
  show ?case
  proof (cases "k' = k")
    case True
    with Cons.prems p have v: "v = occs" and absent: "k \<notin> fst ` set obj" by auto
    have "k \<notin> fst ` set (partialPass acc S obj)"
      using absent partialPass_key [of k _ acc S obj] by fastforce
    then have "AList.delete k (partialPass acc S obj) = partialPass acc S obj"
      by (rule delete_absent)
    with True p v Cons.prems absent show ?thesis
      by (simp add: partialPass_Cons partialPass_insert_absent)
  next
    case False
    with Cons p show ?thesis
      by (auto simp: partialPass_Cons)
  qed
qed

lemma update_partialPass:
  "k \<notin> S \<Longrightarrow> distinct (map fst obj) \<Longrightarrow> map_of obj k = Some occs \<Longrightarrow> keepIt acc occs \<Longrightarrow>
   AList.update k (bestOf acc occs) (partialPass acc S obj) = partialPass acc (insert k S) obj"
proof (induction obj)
  case Nil
  then show ?case by simp
next
  case (Cons p obj)
  obtain k' v where p: "p = (k', v)" by (cases p)
  show ?case
  proof (cases "k' = k")
    case True
    with Cons.prems p have v: "v = occs" and absent: "k \<notin> fst ` set obj" by auto
    with True p v Cons.prems absent show ?thesis
      by (simp add: partialPass_Cons partialPass_insert_absent)
  next
    case False
    with Cons p show ?thesis
      by (auto simp: partialPass_Cons)
  qed
qed

lemma filterProperty_partialPass:
  assumes "k \<notin> S" "distinct (map fst obj)"
  shows "filterProperty acc (partialPass acc S obj) k = partialPass acc (insert k S) obj"
proof (cases "map_of obj k")
  case None
  then have "k \<notin> fst ` set obj" by (simp add: map_of_eq_None_iff)
  with None assms show ?thesis
    by (simp add: filterProperty_def map_of_partialPass partialPass_insert_absent)
next
  case (Some occs)
  have look: "map_of (partialPass acc S obj) k = Some occs"
    using assms Some by (simp add: map_of_partialPass)
  show ?thesis
  proof (cases "keepIt acc occs")
    case True
    have "filterProperty acc (partialPass acc S obj) k =
          AList.update k (bestOf acc occs) (partialPass acc S obj)"
      unfolding filterProperty_def bestOf_def look using True by simp
    then show ?thesis using assms Some True by (simp add: update_partialPass)
  next
    case False
    have "filterProperty acc (partialPass acc S obj) k = AList.delete k (partialPass acc S obj)"
      unfolding filterProperty_def look using False by simp
    then show ?thesis using assms Some False by (simp add: delete_partialPass)
  qed
qed

lemma foldl_filterProperty:
  "distinct ks \<Longrightarrow> distinct (map fst obj) \<Longrightarrow>
   foldl (filterProperty acc) obj ks = partialPass acc (set ks) obj"
proof (induction ks rule: rev_induct)
  case Nil
  then show ?case by simp
next
  case (snoc k ks)
  then show ?case by (simp add: filterProperty_partialPass)
qed

lemma set_Object_keys [simp]: "set (Object_keys obj) = fst ` set obj"
  by (auto simp: Object_keys_def)

lemma distinct_Object_keys: "distinct (map fst obj) \<Longrightarrow> distinct (Object_keys obj)"
  by (auto simp: Object_keys_def)

lemma length_Object_keys [simp]: "length (Object_keys obj) = length obj"
proof -
  have "length (filter isArrayIndex (map fst obj)) +
        length (filter (\<lambda>k. \<not> isArrayIndex k) (map fst obj)) = length (map fst obj)"
    by (rule sum_length_filter_compl)
  then show ?thesis by (simp add: Object_keys_def)
qed

lemma partialPass_all:
  "fst ` set obj \<subseteq> S \<Longrightarrow>
   partialPass acc S obj =
     map (\<lambda>(k, occs). (k, bestOf acc occs)) (filter (\<lambda>(k, occs). keepIt acc occs) obj)"
  by (induction obj) (auto simp: partialPass_Cons)

text \<open>
  The first loop keeps, in their order, the properties that pass, each reduced to its
  best occurrence.
\<close>

lemma filterPass_closed:
  "distinct (map fst obj) \<Longrightarrow>
   filterPass acc obj =
     map (\<lambda>(k, occs). (k, bestOf acc occs)) (filter (\<lambda>(k, occs). keepIt acc occs) obj)"
  by (simp add: filterPass_def foldl_filterProperty distinct_Object_keys partialPass_all)

lemma filterPass_keys:
  "distinct (map fst obj) \<Longrightarrow>
   map fst (filterPass acc obj) = map fst (filter (\<lambda>(k, occs). keepIt acc occs) obj)"
  by (simp add: filterPass_closed comp_def case_prod_unfold)

lemma distinct_filterPass:
  "distinct (map fst obj) \<Longrightarrow> distinct (map fst (filterPass acc obj))"
  by (simp add: filterPass_keys distinct_map_filter)

lemma filterPass_member:
  assumes "distinct (map fst obj)"
  shows "(k, v) \<in> set (filterPass acc obj) \<longleftrightarrow>
         (\<exists>occs. map_of obj k = Some occs \<and> keepIt acc occs \<and> v = bestOf acc occs)"
  using assms by (auto simp: filterPass_closed)

subsection \<open>The sort\<close>

lemma insertSorted_insort_key:
  "insertSorted (\<lambda>a b. f b - f a) x ys = insort_key (\<lambda>x. - f x) x ys"
  by (induction ys) auto

lemma js_sort_sort_key: "js_sort (\<lambda>a b. f b - f a) xs = sort_key (\<lambda>x. - f x) xs"
  by (induction xs) (auto simp: insertSorted_insort_key)

lemma compareOccurrences_eq: "compareOccurrences acc = (\<lambda>a b. score acc b - score acc a)"
  by (intro ext) (simp add: compareOccurrences_def)

lemma compareEntries_eq: "compareEntries acc = (\<lambda>a b. entryScore acc b - entryScore acc a)"
  by (intro ext) (simp add: compareEntries_def entryScore_def)

lemma insertSorted_map:
  "map g (insertSorted (\<lambda>a b. c (g a) (g b)) x ys) = insertSorted c (g x) (map g ys)"
  by (induction ys) auto

lemma js_sort_map: "map g (js_sort (\<lambda>a b. c (g a) (g b)) xs) = js_sort c (map g xs)"
  by (induction xs) (auto simp: insertSorted_map)

lemma set_insertSorted [simp]: "set (insertSorted c x ys) = insert x (set ys)"
  by (induction ys) auto

lemma set_js_sort [simp]: "set (js_sort c xs) = set xs"
  by (induction xs) auto

lemma length_insertSorted [simp]: "length (insertSorted c x ys) = Suc (length ys)"
  by (induction ys) auto

lemma length_js_sort [simp]: "length (js_sort c xs) = length xs"
  by (induction xs) auto

lemma mset_insertSorted [simp]: "mset (insertSorted c x ys) = add_mset x (mset ys)"
  by (induction ys) auto

lemma mset_js_sort [simp]: "mset (js_sort c xs) = mset xs"
  by (induction xs) auto

lemma js_sort_short: "length xs < 2 \<Longrightarrow> js_sort c xs = xs"
  by (cases xs; cases "tl xs") auto

subsection \<open>The returned array and its keys\<close>

lemma slice0_map: "map g (slice0 n xs) = slice0 n (map g xs)"
  by (simp add: slice0_def take_map)

lemma truncateResult_map: "map g (truncateResult acc xs) = truncateResult acc (map g xs)"
  by (simp add: truncateResult_def slice0_map split: option.splits)

lemma set_slice0: "set (slice0 n xs) \<subseteq> set xs"
  by (auto simp: slice0_def dest: in_set_takeD)

lemma set_truncateResult: "set (truncateResult acc xs) \<subseteq> set xs"
  using set_slice0 [of _ xs] by (auto simp: truncateResult_def split: option.splits)

lemma collectResult_keyedResult: "collectResult obj = map snd (keyedResult obj)"
  by (simp add: collectResult_def keyedResult_def comp_def)

lemma keys_keyedResult: "map fst (keyedResult obj) = Object_keys obj"
  by (simp add: keyedResult_def comp_def)

lemma filterOccurrences_keptEntries:
  assumes "filterOccurrences acc obj = Inr r"
  shows "r = map snd (keptEntries acc obj)"
proof -
  from assms have "r = truncateResult acc (js_sort (compareEntries acc) (collectResult (filterPass acc obj)))"
    by (auto simp: filterOccurrences_def sortResult_def split: if_splits sum.splits)
  then show ?thesis
    by (simp add: keptEntries_def truncateResult_map js_sort_map collectResult_keyedResult)
qed

lemma keptKeys_subset: "set (keptKeys acc obj) \<subseteq> fst ` set (filterPass acc obj)"
proof -
  have "set (keptEntries acc obj) \<subseteq> set (keyedResult (filterPass acc obj))"
    unfolding keptEntries_def using set_truncateResult [of acc] by fastforce
  then have "fst ` set (keptEntries acc obj) \<subseteq> set (map fst (keyedResult (filterPass acc obj)))"
    by auto
  then show ?thesis by (simp add: keptKeys_def keys_keyedResult)
qed

subsection \<open>The retained occurrence\<close>

lemma hd_insertSorted:
  "hd (insertSorted c x ys) = (if ys = [] \<or> c x (hd ys) \<le> 0 then x else hd ys)"
  by (cases ys) auto

lemma js_sort_eq_Nil [simp]: "js_sort c xs = [] \<longleftrightarrow> xs = []"
  by (metis length_0_conv length_js_sort)

text \<open>
  The head of the sorted group is the first occurrence, in the order of the group, among
  those of maximal score.
\<close>

lemma hd_js_sort_first_maximum:
  "occs \<noteq> [] \<Longrightarrow>
   \<exists>i < length occs.
     hd (js_sort (compareOccurrences acc) occs) = occs ! i \<and>
     (\<forall>j < length occs. score acc (occs ! j) \<le> score acc (occs ! i)) \<and>
     (\<forall>j < i. score acc (occs ! j) < score acc (occs ! i))"
proof (induction occs)
  case Nil
  then show ?case by simp
next
  case (Cons x xs)
  show ?case
  proof (cases "xs = []")
    case True
    then show ?thesis by simp
  next
    case False
    with Cons.IH obtain i where i: "i < length xs"
      and hd: "hd (js_sort (compareOccurrences acc) xs) = xs ! i"
      and max: "\<forall>j < length xs. score acc (xs ! j) \<le> score acc (xs ! i)"
      and first: "\<forall>j < i. score acc (xs ! j) < score acc (xs ! i)"
      by blast
    show ?thesis
    proof (cases "score acc (xs ! i) \<le> score acc x")
      case True
      then have "hd (js_sort (compareOccurrences acc) (x # xs)) = (x # xs) ! 0"
        by (simp add: hd_insertSorted hd compareOccurrences_def)
      moreover have "\<forall>j < length (x # xs). score acc ((x # xs) ! j) \<le> score acc ((x # xs) ! 0)"
      proof (intro allI impI)
        fix j assume "j < length (x # xs)"
        then show "score acc ((x # xs) ! j) \<le> score acc ((x # xs) ! 0)"
          using max True by (cases j) (auto intro: order_trans)
      qed
      ultimately show ?thesis by (intro exI [of _ 0]) simp
    next
      case worse: False
      then have "hd (js_sort (compareOccurrences acc) (x # xs)) = (x # xs) ! Suc i"
        using False by (simp add: hd_insertSorted hd compareOccurrences_def)
      moreover have "\<forall>j < length (x # xs). score acc ((x # xs) ! j) \<le> score acc ((x # xs) ! Suc i)"
      proof (intro allI impI)
        fix j assume "j < length (x # xs)"
        then show "score acc ((x # xs) ! j) \<le> score acc ((x # xs) ! Suc i)"
          using max worse by (cases j) auto
      qed
      moreover have "\<forall>j < Suc i. score acc ((x # xs) ! j) < score acc ((x # xs) ! Suc i)"
      proof (intro allI impI)
        fix j assume "j < Suc i"
        then show "score acc ((x # xs) ! j) < score acc ((x # xs) ! Suc i)"
          using first worse by (cases j) auto
      qed
      ultimately show ?thesis using i by (intro exI [of _ "Suc i"]) simp
    qed
  qed
qed

lemma bestOf_hd: "occs \<noteq> [] \<Longrightarrow> bestOf acc occs = [hd (js_sort (compareOccurrences acc) occs)]"
  by (cases "js_sort (compareOccurrences acc) occs") (auto simp: bestOf_def)

lemma bestOf_eq_Nil [simp]: "bestOf acc occs = [] \<longleftrightarrow> occs = []"
  by (simp add: bestOf_def)

lemma set_bestOf: "set (bestOf acc occs) \<subseteq> set occs"
proof -
  have "set (take 1 (js_sort (compareOccurrences acc) occs)) \<subseteq> set (js_sort (compareOccurrences acc) occs)"
    by (rule set_take_subset)
  then show ?thesis by (simp add: bestOf_def)
qed

lemma bestOf_first_maximum:
  assumes "occs \<noteq> []"
  shows "\<exists>i < length occs.
     bestOf acc occs = [occs ! i] \<and>
     (\<forall>j < length occs. score acc (occs ! j) \<le> score acc (occs ! i)) \<and>
     (\<forall>j < i. score acc (occs ! j) < score acc (occs ! i))"
  using hd_js_sort_first_maximum [OF assms, of acc] by (simp add: bestOf_hd [OF assms])

subsection \<open>When the filter returns\<close>

lemma keyedResult_member:
  assumes "distinct (map fst obj)" "(k, e) \<in> set (keyedResult obj)"
  shows "(k, occurrences e) \<in> set obj"
proof -
  from assms(2) have k: "k \<in> fst ` set obj" and e: "occurrences e = the (map_of obj k)"
    by (auto simp: keyedResult_def)
  from k obtain v where "map_of obj k = Some v"
    by (metis map_of_eq_None_iff not_Some_eq)
  with e show ?thesis by (auto dest: map_of_SomeD)
qed

lemma keptEntries_subset: "set (keptEntries acc obj) \<subseteq> set (keyedResult (filterPass acc obj))"
  unfolding keptEntries_def using set_truncateResult [of acc] by fastforce

lemma keptEntries_member:
  assumes "distinct (map fst obj)" "(k, e) \<in> set (keptEntries acc obj)"
  shows "(k, occurrences e) \<in> set (filterPass acc obj)"
  using assms keptEntries_subset [of acc obj]
  by (blast intro: keyedResult_member [OF distinct_filterPass])

lemma groupsWellFormed_callWellFormed: "groupsWellFormed obj \<Longrightarrow> callWellFormed acc obj"
  by (simp add: groupsWellFormed_def callWellFormed_def)

lemma callWellFormed_distinct: "callWellFormed acc obj \<Longrightarrow> distinct (map fst obj)"
  by (simp add: callWellFormed_def)

lemma passesBothBars_nonempty:
  assumes "passesBothBars acc occs"
    and "minimumOccurrence acc \<ge> 1 \<or> minimumScoreOccurrence acc \<ge> 1"
  shows "occs \<noteq> []"
  using assms by (auto simp: passesBothBars_def)

lemma filterPass_nonempty:
  assumes "callWellFormed acc obj" "(k, v) \<in> set (filterPass acc obj)"
  shows "v \<noteq> []"
proof -
  from assms have d: "distinct (map fst obj)" by (simp add: callWellFormed_def)
  from assms(2) obtain occs where occs: "map_of obj k = Some occs" "v = bestOf acc occs"
    and keep: "keepIt acc occs"
    by (auto simp: filterPass_member [OF d])
  then have mem: "(k, occs) \<in> set obj" by (auto dest: map_of_SomeD)
  have "occs \<noteq> []"
  proof (cases "list_all (\<lambda>p. snd p \<noteq> []) obj")
    case True
    with mem show ?thesis by (auto simp: list_all_iff)
  next
    case False
    with assms(1) have "minimumOccurrence acc \<ge> 1 \<or> minimumScoreOccurrence acc \<ge> 1"
      by (simp add: callWellFormed_def)
    with keep show ?thesis by (intro passesBothBars_nonempty) (simp_all add: keepIt_iff)
  qed
  with occs show ?thesis by simp
qed

lemma collectResult_nonempty:
  assumes "callWellFormed acc obj" "e \<in> set (collectResult (filterPass acc obj))"
  shows "occurrences e \<noteq> []"
proof -
  from assms have d: "distinct (map fst obj)" by (simp add: callWellFormed_def)
  from assms(2) obtain k where "(k, e) \<in> set (keyedResult (filterPass acc obj))"
    by (auto simp: collectResult_keyedResult)
  then have "(k, occurrences e) \<in> set (filterPass acc obj)"
    by (rule keyedResult_member [OF distinct_filterPass [OF d]])
  then show ?thesis by (rule filterPass_nonempty [OF assms(1)])
qed

text \<open>A well-formed call of the filter returns.\<close>

lemma filterOccurrences_returns:
  assumes "callWellFormed acc obj"
  shows "filterOccurrences acc obj =
           Inr (truncateResult acc (js_sort (compareEntries acc) (collectResult (filterPass acc obj))))"
proof -
  have "\<not> list_ex (\<lambda>e. occurrences e = []) (collectResult (filterPass acc obj))"
    using collectResult_nonempty [OF assms] by (auto simp: list_ex_iff)
  then show ?thesis by (simp add: filterOccurrences_def sortResult_def)
qed

lemma filterOccurrences_returns_keptEntries:
  "callWellFormed acc obj \<Longrightarrow> filterOccurrences acc obj = Inr (map snd (keptEntries acc obj))"
  by (simp add: filterOccurrences_returns keptEntries_def truncateResult_map js_sort_map
      collectResult_keyedResult)

subsection \<open>Order and truncation of the returned array\<close>

lemma js_sort_sorted:
  "sorted_wrt (\<lambda>a b. f a \<ge> f b) (js_sort (\<lambda>a b. f b - f a) xs)"
proof -
  have "sorted (map (\<lambda>x. - f x) (sort_key (\<lambda>x. - f x) xs))"
    by (rule sorted_sort_key)
  then show ?thesis
    by (simp add: js_sort_sort_key sorted_map)
qed

lemma js_sort_stable:
  "filter (\<lambda>x. f x = s) (js_sort (\<lambda>a b. f b - f a) xs) = filter (\<lambda>x. f x = s) xs"
proof -
  have "filter (\<lambda>x. - f x = - s) (sort_key (\<lambda>x. - f x) xs) = filter (\<lambda>x. - f x = - s) xs"
    by (rule sort_key_stable)
  then show ?thesis by (simp add: js_sort_sort_key)
qed

lemma distinct_js_sort [simp]: "distinct (js_sort c xs) = distinct xs"
  by (metis distinct_count_atmost_1 mset_js_sort set_js_sort set_mset_mset)

lemma prefix_filter_take: "prefix (filter P (take n xs)) (filter P xs)"
proof -
  have "filter P xs = filter P (take n xs) @ filter P (drop n xs)"
    by (metis append_take_drop_id filter_append)
  then show ?thesis by (simp add: prefix_def)
qed

lemma sorted_wrt_take_drop:
  assumes "sorted_wrt R xs" "x \<in> set (take n xs)" "y \<in> set (drop n xs)"
  shows "R x y"
proof -
  have "sorted_wrt R (take n xs @ drop n xs)" using assms(1) by simp
  then show ?thesis using assms(2,3) unfolding sorted_wrt_append by blast
qed

lemma set_diff_take:
  assumes "distinct xs"
  shows "set xs - set (take n xs) = set (drop n xs)"
proof -
  have "distinct (take n xs @ drop n xs)" using assms by simp
  then have "set (take n xs) \<inter> set (drop n xs) = {}" unfolding distinct_append by blast
  moreover have "set xs = set (take n xs) \<union> set (drop n xs)"
    by (metis append_take_drop_id set_append)
  ultimately show ?thesis by blast
qed

text \<open>Whatever the cap is, the truncation keeps a prefix.\<close>

lemma truncateResult_take: "\<exists>n. truncateResult acc xs = take n xs"
proof (cases "maximumOccurrenceCount acc")
  case None
  then have "truncateResult acc xs = take (length xs) xs" by (simp add: truncateResult_def)
  then show ?thesis by blast
next
  case (Some c)
  show ?thesis
  proof (cases "c \<noteq> 0 \<and> int (length xs) > c")
    case True
    then have "truncateResult acc xs = slice0 c xs" using Some by (simp add: truncateResult_def)
    then show ?thesis by (auto simp: slice0_def)
  next
    case False
    then have "truncateResult acc xs = take (length xs) xs" using Some by (auto simp: truncateResult_def)
    then show ?thesis by blast
  qed
qed

lemma truncateResult_positive_cap:
  assumes "maximumOccurrenceCount acc = Some c" "c \<ge> 1"
  shows "truncateResult acc xs = take (nat c) xs"
  using assms by (auto simp: truncateResult_def slice0_def)

lemma truncateResult_no_cap:
  assumes "maximumOccurrenceCount acc = None \<or> maximumOccurrenceCount acc = Some 0"
  shows "truncateResult acc xs = xs"
  using assms by (auto simp: truncateResult_def)

lemma keyed_compare_eq:
  "(\<lambda>a b. compareEntries acc (snd a) (snd b)) =
   (\<lambda>a b. entryScore acc (snd b) - entryScore acc (snd a))"
  by (simp add: compareEntries_eq)

lemma distinct_keyedResult:
  assumes "distinct (map fst obj)"
  shows "distinct (keyedResult obj)"
proof -
  have "distinct (map fst (keyedResult obj))"
    using assms by (simp add: keys_keyedResult distinct_Object_keys)
  then show ?thesis by (rule distinct_map [THEN iffD1, THEN conjunct1])
qed

lemma length_keyedResult [simp]: "length (keyedResult obj) = length obj"
  by (simp add: keyedResult_def)

lemma length_filterPass:
  "distinct (map fst obj) \<Longrightarrow>
   length (filterPass acc obj) = length (filter (\<lambda>(k, occs). passesBothBars acc occs) obj)"
  by (simp add: filterPass_closed keepIt_iff)

lemma keys_filterPass_set:
  assumes "distinct (map fst obj)"
  shows "fst ` set (filterPass acc obj) =
         {k. \<exists>occs. map_of obj k = Some occs \<and> passesBothBars acc occs}"
proof -
  have "\<And>k. k \<in> fst ` set (filterPass acc obj) \<longleftrightarrow> (\<exists>v. (k, v) \<in> set (filterPass acc obj))"
    by force
  then show ?thesis
    by (auto simp: filterPass_member [OF assms] keepIt_iff)
qed

subsection \<open>Dependence on the thresholds and on the score function\<close>

lemma length_filter_mono:
  "(\<And>x. x \<in> set xs \<Longrightarrow> P x \<Longrightarrow> Q x) \<Longrightarrow> length (filter P xs) \<le> length (filter Q xs)"
  by (induction xs) auto

lemma passesBothBars_mono:
  assumes "score acc' = score acc"
    and "minimumScoreOccurrence acc' = minimumScoreOccurrence acc"
    and "minimumOccurrence acc \<le> minimumOccurrence acc'"
    and "minimumScore acc \<le> minimumScore acc'"
    and "passesBothBars acc' occs"
  shows "passesBothBars acc occs"
proof -
  have "length (filter (\<lambda>occur. score acc occur \<ge> minimumScore acc') occs)
        \<le> length (filter (\<lambda>occur. score acc occur \<ge> minimumScore acc) occs)"
    using assms(4) by (intro length_filter_mono) auto
  with assms show ?thesis by (auto simp: passesBothBars_def)
qed

lemma notTruncated_keptKeys:
  assumes "notTruncated acc obj"
  shows "set (keptKeys acc obj) = fst ` set (filterPass acc obj)"
proof -
  let ?S = "js_sort (\<lambda>a b. compareEntries acc (snd a) (snd b)) (keyedResult (filterPass acc obj))"
  have "length ?S = length (filterPass acc obj)" by simp
  with assms have "truncateResult acc ?S = ?S"
    by (auto simp: notTruncated_def truncateResult_def split: option.splits)
  then have "set (keptKeys acc obj) = set (map fst (keyedResult (filterPass acc obj)))"
    by (simp add: keptKeys_def keptEntries_def)
  then show ?thesis by (simp add: keys_keyedResult)
qed







subsection \<open>A second call on the same object\<close>

lemma length_bestOf: "length (bestOf acc occs) \<le> 1"
  by (simp add: bestOf_def)

lemma bestOf_bestOf [simp]: "bestOf acc (bestOf acc occs) = bestOf acc occs"
proof -
  have "length (bestOf acc occs) < 2" using length_bestOf [of acc occs] by simp
  then have "js_sort (compareOccurrences acc) (bestOf acc occs) = bestOf acc occs"
    by (rule js_sort_short)
  then have "bestOf acc (bestOf acc occs) = take 1 (bestOf acc occs)"
    by (simp add: bestOf_def [of acc "bestOf acc occs"])
  then show ?thesis using length_bestOf [of acc occs] by simp
qed





lemma filterOccurrences_Nil [simp]: "filterOccurrences acc [] = Inr []"
  by (auto simp: filterOccurrences_def sortResult_def collectResult_def filterPass_def
      Object_keys_def truncateResult_def slice0_def split: option.splits)

lemma keptEntries_origin:
  assumes "distinct (map fst obj)" "(k, e) \<in> set (keptEntries acc obj)"
  shows "\<exists>occs. map_of obj k = Some occs \<and> passesBothBars acc occs \<and>
           occurrences e = bestOf acc occs"
proof -
  from keptEntries_member [OF assms] have "(k, occurrences e) \<in> set (filterPass acc obj)" .
  then show ?thesis by (auto simp: filterPass_member [OF assms(1)] keepIt_iff)
qed

lemma distinct_keptKeys:
  assumes "distinct (map fst obj)"
  shows "distinct (keptKeys acc obj)"
proof -
  let ?S = "js_sort (\<lambda>a b. compareEntries acc (snd a) (snd b)) (keyedResult (filterPass acc obj))"
  have "mset (map fst ?S) = mset (map fst (keyedResult (filterPass acc obj)))"
    by simp
  then have "distinct (map fst ?S) = distinct (map fst (keyedResult (filterPass acc obj)))"
    by (metis mset_eq_imp_distinct_iff)
  then have d: "distinct (map fst ?S)"
    by (simp add: keys_keyedResult distinct_Object_keys distinct_filterPass [OF assms])
  obtain n where "truncateResult acc ?S = take n ?S"
    using truncateResult_take [of acc ?S] by blast
  then have "keptKeys acc obj = take n (map fst ?S)"
    by (simp add: keptKeys_def keptEntries_def take_map)
  with d show ?thesis by simp
qed

subsection \<open>The returned array when nothing is cut\<close>

lemma mset_Object_keys: "mset (Object_keys obj) = mset (map fst obj)"
proof -
  have "mset (filter isArrayIndex (map fst obj)) +
        mset (filter (\<lambda>k. \<not> isArrayIndex k) (map fst obj)) = mset (map fst obj)"
    by (simp only: mset_filter multiset_partition [symmetric])
  then show ?thesis by (simp add: Object_keys_def)
qed

lemma mset_collectResult:
  assumes "distinct (map fst obj)"
  shows "mset (collectResult obj) = mset (map (\<lambda>p. \<lparr>occurrences = snd p\<rparr>) obj)"
proof -
  let ?g = "\<lambda>property. \<lparr>occurrences = the (map_of obj property)\<rparr>"
  have "mset (collectResult obj) = image_mset ?g (mset (Object_keys obj))"
    by (simp add: collectResult_def)
  also have "\<dots> = image_mset ?g (mset (map fst obj))"
    by (simp only: mset_Object_keys)
  also have "\<dots> = mset (map ?g (map fst obj))"
    by (simp only: mset_map)
  also have "map ?g (map fst obj) = map (\<lambda>p. \<lparr>occurrences = snd p\<rparr>) obj"
    using assms by (auto simp: map_of_eq_Some_iff [OF assms, THEN iffD2])
  finally show ?thesis .
qed

lemma notTruncated_returned:
  assumes "distinct (map fst obj)" "notTruncated acc obj"
  shows "mset (map snd (keptEntries acc obj)) =
           mset (map (\<lambda>p. \<lparr>occurrences = bestOf acc (snd p)\<rparr>)
                  (filter (\<lambda>p. passesBothBars acc (snd p)) obj))"
proof -
  let ?S = "js_sort (\<lambda>a b. compareEntries acc (snd a) (snd b)) (keyedResult (filterPass acc obj))"
  have "length ?S = length (filterPass acc obj)" by simp
  with assms(2) have "truncateResult acc ?S = ?S"
    by (auto simp: notTruncated_def truncateResult_def split: option.splits)
  then have "map snd (keptEntries acc obj) =
      js_sort (compareEntries acc) (collectResult (filterPass acc obj))"
    by (simp add: keptEntries_def js_sort_map collectResult_keyedResult)
  then have "mset (map snd (keptEntries acc obj)) =
      mset (map (\<lambda>p. \<lparr>occurrences = snd p\<rparr>) (filterPass acc obj))"
    by (simp add: mset_collectResult [OF distinct_filterPass [OF assms(1)]])
  also have "map (\<lambda>p. \<lparr>occurrences = snd p\<rparr>) (filterPass acc obj) =
      map (\<lambda>p. \<lparr>occurrences = bestOf acc (snd p)\<rparr>)
        (filter (\<lambda>p. passesBothBars acc (snd p)) obj)"
    by (simp add: filterPass_closed [OF assms(1)] keepIt_iff comp_def case_prod_unfold)
  finally show ?thesis .
qed

lemma notTruncated_length:
  assumes "notTruncated acc obj"
  shows "length (keptKeys acc obj) = length (filterPass acc obj)"
proof -
  let ?S = "js_sort (\<lambda>a b. compareEntries acc (snd a) (snd b)) (keyedResult (filterPass acc obj))"
  have "length ?S = length (filterPass acc obj)" by simp
  with assms have "truncateResult acc ?S = ?S"
    by (auto simp: notTruncated_def truncateResult_def split: option.splits)
  then show ?thesis by (simp add: keptKeys_def keptEntries_def)
qed


section \<open>Properties of the collecting loop\<close>

subsection \<open>Loops that may throw\<close>

lemma forEach_preserves:
  assumes "forEach f xs s = Inr s'" and "P s"
    and "\<And>s x s'. x \<in> set xs \<Longrightarrow> P s \<Longrightarrow> f s x = Inr s' \<Longrightarrow> P s'"
  shows "P s'"
  using assms
proof (induction xs arbitrary: s)
  case Nil
  then show ?case by simp
next
  case (Cons x xs)
  from Cons.prems(1) obtain s1 where s1: "f s x = Inr s1" and rest: "forEach f xs s1 = Inr s'"
    by (auto split: sum.splits)
  have "P s1" using Cons.prems(3) [of x s s1] Cons.prems(2) s1 by simp
  have step: "\<And>z s s'. z \<in> set xs \<Longrightarrow> P s \<Longrightarrow> f s z = Inr s' \<Longrightarrow> P s'"
    using Cons.prems(3) by (meson list.set_intros(2))
  show ?case by (rule Cons.IH [OF rest \<open>P s1\<close> step])
qed

lemma forEach_establishes:
  assumes "forEach f xs s = Inr s'" and "P s" and "x \<in> set xs"
    and inv: "\<And>s y s'. y \<in> set xs \<Longrightarrow> P s \<Longrightarrow> f s y = Inr s' \<Longrightarrow> P s'"
    and est: "\<And>s s'. P s \<Longrightarrow> f s x = Inr s' \<Longrightarrow> Q s'"
    and pres: "\<And>s y s'. y \<in> set xs \<Longrightarrow> P s \<Longrightarrow> Q s \<Longrightarrow> f s y = Inr s' \<Longrightarrow> Q s'"
  shows "Q s'"
  using assms(1-3) inv pres
proof (induction xs arbitrary: s)
  case Nil
  then show ?case by simp
next
  case (Cons y ys)
  from Cons.prems(1) obtain s1 where s1: "f s y = Inr s1" and rest: "forEach f ys s1 = Inr s'"
    by (auto split: sum.splits)
  have P1: "P s1" using Cons.prems(4) [of y s s1] Cons.prems(2) s1 by simp
  show ?case
  proof (cases "x = y")
    case True
    then have "Q s1" using est Cons.prems(2) s1 by blast
    then have "P s1 \<and> Q s1" using P1 by simp
    moreover have "\<And>s z s'. z \<in> set ys \<Longrightarrow> P s \<and> Q s \<Longrightarrow> f s z = Inr s' \<Longrightarrow> P s' \<and> Q s'"
      using Cons.prems(4,5) by (meson list.set_intros(2))
    ultimately have "P s' \<and> Q s'" using rest by (intro forEach_preserves [of f ys s1 s' "\<lambda>s. P s \<and> Q s"])
    then show ?thesis by simp
  next
    case False
    with Cons.prems(3) have x: "x \<in> set ys" by simp
    have inv': "\<And>z s s'. z \<in> set ys \<Longrightarrow> P s \<Longrightarrow> f s z = Inr s' \<Longrightarrow> P s'"
      using Cons.prems(4) by (meson list.set_intros(2))
    have pres': "\<And>z s s'. z \<in> set ys \<Longrightarrow> P s \<Longrightarrow> Q s \<Longrightarrow> f s z = Inr s' \<Longrightarrow> Q s'"
      using Cons.prems(5) by (meson list.set_intros(2))
    show ?thesis by (rule Cons.IH [OF rest P1 x inv' pres'])
  qed
qed

lemma forEach_returns:
  assumes "P s"
    and "\<And>s x. x \<in> set xs \<Longrightarrow> P s \<Longrightarrow> \<exists>s'. f s x = Inr s' \<and> P s'"
  shows "\<exists>s'. forEach f xs s = Inr s' \<and> P s'"
  using assms
proof (induction xs arbitrary: s)
  case Nil
  then show ?case by simp
next
  case (Cons x xs)
  from Cons.prems obtain s1 where s1: "f s x = Inr s1" "P s1" by (meson list.set_intros(1))
  have step: "\<And>s z. z \<in> set xs \<Longrightarrow> P s \<Longrightarrow> \<exists>s'. f s z = Inr s' \<and> P s'"
    using Cons.prems(2) by (meson list.set_intros(2))
  have "\<exists>s'. forEach f xs s1 = Inr s' \<and> P s'"
    by (rule Cons.IH [OF s1(2) step])
  with s1 show ?case by simp
qed

subsection \<open>Pushing an occurrence\<close>

lemma pushOccurrence_Inr:
  assumes "pushOccurrence obj key a = Inr obj'"
  shows "map_of obj' = (map_of obj)(key \<mapsto> (case map_of obj key of None \<Rightarrow> [] | Some as \<Rightarrow> as) @ [a])"
    and "distinct (map fst obj) \<Longrightarrow> distinct (map fst obj')"
    and "map_of obj key = None \<Longrightarrow> key \<notin> set objectPrototypeNames"
  using assms
  by (auto simp: pushOccurrence_def getProperty_def Let_def update_conv' distinct_update
      split: option.splits if_splits)

lemma pushOccurrence_Inl:
  "pushOccurrence obj key a = Inl e \<longleftrightarrow>
     e = TypeError \<and> map_of obj key = None \<and> key \<in> set objectPrototypeNames"
  by (auto simp: pushOccurrence_def getProperty_def Let_def update_conv'
      split: option.splits if_splits)

lemma pushOccurrence_returns:
  "key \<notin> set objectPrototypeNames \<Longrightarrow> \<exists>obj'. pushOccurrence obj key a = Inr obj'"
  by (cases "pushOccurrence obj key a") (auto simp: pushOccurrence_Inl)

subsection \<open>The three assignments\<close>

lemma identity_decorate [simp]: "identity (decorate req img f) = identity f"
  by (simp add: decorate_def)

lemma keyword_class_decorate [simp]: "keyword_class (decorate req img k) = keyword_class k"
  by (simp add: decorate_def)

lemma keyword_score_decorate [simp]: "keyword_score (decorate req img k) = keyword_score k"
  by (simp add: decorate_def)

lemma decorate_decorate [simp]: "decorate req img (decorate req img' d) = decorate req img d"
  by (simp add: decorate_def)

lemma faceName_decorate [simp]: "faceName (decorate req img f) = faceName f"
  by (simp add: faceName_def)

lemma hasName_decorate [simp]: "hasName (decorate req img f) = hasName f"
  by (simp add: hasName_def)

lemma hasName_faceName: "hasName f \<longleftrightarrow> (\<exists>n. faceName f = Some n \<and> n \<noteq> [])"
  by (auto simp: hasName_def faceName_def split: option.splits)

lemma faceStoreInvariantD:
  "faceStoreInvariant req images fs store \<Longrightarrow>
   store a = fs a \<or> (\<exists>img. store a = decorate req img (fs a))"
  unfolding faceStoreInvariant_def by blast

lemma keywordStoreInvariantD:
  "keywordStoreInvariant req images ks store \<Longrightarrow>
   store a = ks a \<or> (\<exists>img. store a = decorate req img (ks a))"
  unfolding keywordStoreInvariant_def by blast

lemma faceStoreInvariant_identity:
  "faceStoreInvariant req images fs store \<Longrightarrow> identity (store a) = identity (fs a)"
  using faceStoreInvariantD [of req images fs store a] by auto

lemma faceStoreInvariant_faceName:
  "faceStoreInvariant req images fs store \<Longrightarrow> faceName (store a) = faceName (fs a)"
  by (simp add: faceName_def faceStoreInvariant_identity)

lemma faceStoreInvariant_hasName:
  "faceStoreInvariant req images fs store \<Longrightarrow> hasName (store a) = hasName (fs a)"
  by (simp add: hasName_def faceStoreInvariant_identity)

lemma faceStoreInvariant_decorate:
  "faceStoreInvariant req images fs store \<Longrightarrow> decorate req img (store a) = decorate req img (fs a)"
  using faceStoreInvariantD [of req images fs store a] by auto

lemma keywordStoreInvariant_class:
  "keywordStoreInvariant req images ks store \<Longrightarrow> keyword_class (store a) = keyword_class (ks a)"
  using keywordStoreInvariantD [of req images ks store a] by auto

lemma keywordStoreInvariant_score:
  "keywordStoreInvariant req images ks store \<Longrightarrow> keyword_score (store a) = keyword_score (ks a)"
  using keywordStoreInvariantD [of req images ks store a] by auto

lemma keywordStoreInvariant_decorate:
  "keywordStoreInvariant req images ks store \<Longrightarrow> decorate req img (store a) = decorate req img (ks a)"
  using keywordStoreInvariantD [of req images ks store a] by auto

subsection \<open>One face, one keyword\<close>

lemma collectFace_unnamed: "\<not> hasName (faceStore st a) \<Longrightarrow> collectFace req img st a = Inr st"
  by (auto simp: collectFace_def hasName_def split: option.splits)

lemma collectFace_named:
  assumes "faceName (faceStore st a) = Some n" "n \<noteq> []"
  shows "collectFace req img st a =
     (case pushOccurrence (peopleNameToOccurrences st) n a of
        Inl e \<Rightarrow> Inl e
      | Inr people \<Rightarrow>
          Inr (st\<lparr>peopleNameToOccurrences := people,
                  faceStore := (faceStore st)(a := decorate req img (faceStore st a))\<rparr>))"
  using assms by (auto simp: collectFace_def faceName_def split: option.splits)

lemma peopleInvariant_push:
  assumes "peopleInvariant images fs obj" "pushOccurrence obj k a = Inr obj'"
    and "faceName (fs a) = Some k" "k \<noteq> []" "img \<in> set images" "a \<in> set (faceAddresses img)"
  shows "peopleInvariant images fs obj'"
proof -
  note push = pushOccurrence_Inr [OF assms(2)]
  from assms(1) have d: "distinct (map fst obj)"
    and old: "\<And>k as. map_of obj k = Some as \<Longrightarrow>
        k \<notin> set objectPrototypeNames \<and>
        as \<noteq> [] \<and> (\<forall>a \<in> set as. faceName (fs a) = Some k \<and> k \<noteq> [] \<and>
           (\<exists>img \<in> set images. a \<in> set (faceAddresses img)))"
    by (auto simp: peopleInvariant_def)
  have "k' \<notin> set objectPrototypeNames \<and>
        as \<noteq> [] \<and> (\<forall>b \<in> set as. faceName (fs b) = Some k' \<and> k' \<noteq> [] \<and>
           (\<exists>img \<in> set images. b \<in> set (faceAddresses img)))"
    if look: "map_of obj' k' = Some as" for k' as
  proof (cases "k' = k")
    case True
    with look push(1) have as: "as = (case map_of obj k of None \<Rightarrow> [] | Some as \<Rightarrow> as) @ [a]"
      by simp
    show ?thesis
    proof (cases "map_of obj k")
      case None
      with as assms(3-6) True push(3) show ?thesis by auto
    next
      case (Some old_as)
      with as old [OF Some] assms(3-6) True show ?thesis by auto
    qed
  next
    case False
    with look push(1) have "map_of obj k' = Some as" by simp
    then show ?thesis by (rule old)
  qed
  with push(2) [OF d] show ?thesis by (simp add: peopleInvariant_def)
qed

lemma keywordInvariant_push:
  assumes "keywordInvariant images ks obj" "pushOccurrence obj k a = Inr obj'"
    and "keyword_class (ks a) = k" "img \<in> set images" "a \<in> set (keywordAddresses img)"
  shows "keywordInvariant images ks obj'"
proof -
  note push = pushOccurrence_Inr [OF assms(2)]
  from assms(1) have d: "distinct (map fst obj)"
    and old: "\<And>k as. map_of obj k = Some as \<Longrightarrow>
        k \<notin> set objectPrototypeNames \<and>
        as \<noteq> [] \<and> (\<forall>a \<in> set as. keyword_class (ks a) = k \<and>
           (\<exists>img \<in> set images. a \<in> set (keywordAddresses img)))"
    by (auto simp: keywordInvariant_def)
  have "k' \<notin> set objectPrototypeNames \<and>
        as \<noteq> [] \<and> (\<forall>b \<in> set as. keyword_class (ks b) = k' \<and>
           (\<exists>img \<in> set images. b \<in> set (keywordAddresses img)))"
    if look: "map_of obj' k' = Some as" for k' as
  proof (cases "k' = k")
    case True
    with look push(1) have as: "as = (case map_of obj k of None \<Rightarrow> [] | Some as \<Rightarrow> as) @ [a]"
      by simp
    show ?thesis
    proof (cases "map_of obj k")
      case None
      with as assms(3-5) True push(3) show ?thesis by auto
    next
      case (Some old_as)
      with as old [OF Some] assms(3-5) True show ?thesis by auto
    qed
  next
    case False
    with look push(1) have "map_of obj k' = Some as" by simp
    then show ?thesis by (rule old)
  qed
  with push(2) [OF d] show ?thesis by (simp add: keywordInvariant_def)
qed

lemma faceStoreInvariant_update:
  assumes "faceStoreInvariant req images fs store" "hasName (fs a)"
    and "img \<in> set images" "a \<in> set (faceAddresses img)"
  shows "faceStoreInvariant req images fs (store(a := decorate req img (store a)))"
proof -
  have new: "decorate req img (store a) = decorate req img (fs a)"
    using assms(1) by (rule faceStoreInvariant_decorate)
  have old: "store b = fs b \<or>
          (hasName (fs b) \<and>
           (\<exists>img \<in> set images. b \<in> set (faceAddresses img) \<and> store b = decorate req img (fs b)))" for b
    using assms(1) unfolding faceStoreInvariant_def by blast
  show ?thesis
    unfolding faceStoreInvariant_def
  proof
    fix b
    show "(store(a := decorate req img (store a))) b = fs b \<or>
          (hasName (fs b) \<and>
           (\<exists>i \<in> set images. b \<in> set (faceAddresses i) \<and>
              (store(a := decorate req img (store a))) b = decorate req i (fs b)))"
    proof (cases "b = a")
      case True
      with new assms(2-4) show ?thesis by auto
    next
      case False
      with old [of b] show ?thesis by simp
    qed
  qed
qed

lemma keywordStoreInvariant_update:
  assumes "keywordStoreInvariant req images ks store"
    and "img \<in> set images" "a \<in> set (keywordAddresses img)"
  shows "keywordStoreInvariant req images ks (store(a := decorate req img (store a)))"
proof -
  have new: "decorate req img (store a) = decorate req img (ks a)"
    using assms(1) by (rule keywordStoreInvariant_decorate)
  have old: "store b = ks b \<or>
          (\<exists>img \<in> set images. b \<in> set (keywordAddresses img) \<and> store b = decorate req img (ks b))" for b
    using assms(1) unfolding keywordStoreInvariant_def by blast
  show ?thesis
    unfolding keywordStoreInvariant_def
  proof
    fix b
    show "(store(a := decorate req img (store a))) b = ks b \<or>
          (\<exists>i \<in> set images. b \<in> set (keywordAddresses i) \<and>
              (store(a := decorate req img (store a))) b = decorate req i (ks b))"
    proof (cases "b = a")
      case True
      with new assms(2,3) show ?thesis by auto
    next
      case False
      with old [of b] show ?thesis by simp
    qed
  qed
qed

lemma collectFace_collected:
  assumes "collected req images fs ks st" "img \<in> set images" "a \<in> set (faceAddresses img)"
    and "collectFace req img st a = Inr st'"
  shows "collected req images fs ks st'"
proof (cases "hasName (faceStore st a)")
  case False
  with assms(4) have "st' = st" by (simp add: collectFace_unnamed)
  with assms(1) show ?thesis by simp
next
  case True
  from assms(1) have fsi: "faceStoreInvariant req images fs (faceStore st)"
    by (simp add: collected_def)
  from True have named: "hasName (fs a)"
    using faceStoreInvariant_hasName [OF fsi] by simp
  then obtain n where n: "faceName (fs a) = Some n" "n \<noteq> []"
    by (auto simp: hasName_faceName)
  then have n': "faceName (faceStore st a) = Some n"
    using faceStoreInvariant_faceName [OF fsi] by simp
  from assms(4) have eq: "(case pushOccurrence (peopleNameToOccurrences st) n a of
        Inl e \<Rightarrow> Inl e
      | Inr people \<Rightarrow>
          Inr (st\<lparr>peopleNameToOccurrences := people,
                  faceStore := (faceStore st)(a := decorate req img (faceStore st a))\<rparr>)) = Inr st'"
    by (simp only: collectFace_named [OF n' n(2)])
  obtain people where push: "pushOccurrence (peopleNameToOccurrences st) n a = Inr people"
    and st': "st' = st\<lparr>peopleNameToOccurrences := people,
                  faceStore := (faceStore st)(a := decorate req img (faceStore st a))\<rparr>"
  proof (cases "pushOccurrence (peopleNameToOccurrences st) n a")
    case (Inl e)
    with eq show ?thesis by simp
  next
    case (Inr people)
    with eq that show ?thesis by simp
  qed
  from assms(1) have "peopleInvariant images fs (peopleNameToOccurrences st)"
    by (simp add: collected_def)
  then have "peopleInvariant images fs people"
    using push n assms(2,3) by (rule peopleInvariant_push)
  moreover have "faceStoreInvariant req images fs ((faceStore st)(a := decorate req img (faceStore st a)))"
    using fsi named assms(2,3) by (rule faceStoreInvariant_update)
  ultimately show ?thesis using assms(1) by (simp add: collected_def st')
qed

lemma collectKeyword_collected:
  assumes "collected req images fs ks st" "img \<in> set images" "a \<in> set (keywordAddresses img)"
    and "collectKeyword req img st a = Inr st'"
  shows "collected req images fs ks st'"
proof -
  from assms(1) have ksi: "keywordStoreInvariant req images ks (keywordStore st)"
    by (simp add: collected_def)
  have cls: "keyword_class (keywordStore st a) = keyword_class (ks a)"
    using ksi by (rule keywordStoreInvariant_class)
  from assms(4) have eq: "(case pushOccurrence (keywordToOccurrences st) (keyword_class (ks a)) a of
        Inl e \<Rightarrow> Inl e
      | Inr groups \<Rightarrow>
          Inr (st\<lparr>keywordToOccurrences := groups,
                  keywordStore := (keywordStore st)(a := decorate req img (keywordStore st a))\<rparr>)) = Inr st'"
    by (simp only: collectKeyword_def cls)
  obtain groups
    where push: "pushOccurrence (keywordToOccurrences st) (keyword_class (ks a)) a = Inr groups"
    and st': "st' = st\<lparr>keywordToOccurrences := groups,
                  keywordStore := (keywordStore st)(a := decorate req img (keywordStore st a))\<rparr>"
  proof (cases "pushOccurrence (keywordToOccurrences st) (keyword_class (ks a)) a")
    case (Inl e)
    with eq show ?thesis by simp
  next
    case (Inr groups)
    with eq that show ?thesis by simp
  qed
  from assms(1) have "keywordInvariant images ks (keywordToOccurrences st)"
    by (simp add: collected_def)
  then have "keywordInvariant images ks groups"
    using push refl assms(2,3) by (rule keywordInvariant_push)
  moreover have "keywordStoreInvariant req images ks
      ((keywordStore st)(a := decorate req img (keywordStore st a)))"
    using ksi assms(2,3) by (rule keywordStoreInvariant_update)
  ultimately show ?thesis using assms(1) by (simp add: collected_def st')
qed

lemma collectFace_result:
  assumes "collected req images fs ks st" "collectFace req img st a = Inr st'"
  shows "if hasName (fs a)
         then \<exists>n people. faceName (fs a) = Some n \<and> n \<noteq> [] \<and>
                pushOccurrence (peopleNameToOccurrences st) n a = Inr people \<and>
                st' = st\<lparr>peopleNameToOccurrences := people,
                          faceStore := (faceStore st)(a := decorate req img (fs a))\<rparr>
         else st' = st"
proof (cases "hasName (fs a)")
  case False
  from assms(1) have fsi: "faceStoreInvariant req images fs (faceStore st)"
    by (simp add: collected_def)
  from False have "\<not> hasName (faceStore st a)"
    using faceStoreInvariant_hasName [OF fsi] by simp
  with assms(2) False show ?thesis by (simp add: collectFace_unnamed)
next
  case True
  from assms(1) have fsi: "faceStoreInvariant req images fs (faceStore st)"
    by (simp add: collected_def)
  from True obtain n where n: "faceName (fs a) = Some n" "n \<noteq> []"
    by (auto simp: hasName_faceName)
  then have n': "faceName (faceStore st a) = Some n"
    using faceStoreInvariant_faceName [OF fsi] by simp
  have dec: "decorate req img (faceStore st a) = decorate req img (fs a)"
    using fsi by (rule faceStoreInvariant_decorate)
  from assms(2) have eq: "(case pushOccurrence (peopleNameToOccurrences st) n a of
        Inl e \<Rightarrow> Inl e
      | Inr people \<Rightarrow>
          Inr (st\<lparr>peopleNameToOccurrences := people,
                  faceStore := (faceStore st)(a := decorate req img (fs a))\<rparr>)) = Inr st'"
    by (simp only: collectFace_named [OF n' n(2)] dec)
  have "\<exists>people. pushOccurrence (peopleNameToOccurrences st) n a = Inr people \<and>
       st' = st\<lparr>peopleNameToOccurrences := people,
                  faceStore := (faceStore st)(a := decorate req img (fs a))\<rparr>"
  proof (cases "pushOccurrence (peopleNameToOccurrences st) n a")
    case (Inl e)
    with eq show ?thesis by simp
  next
    case (Inr people)
    with eq show ?thesis by simp
  qed
  with True n show ?thesis by simp
qed

lemma collectKeyword_result:
  assumes "collected req images fs ks st" "collectKeyword req img st a = Inr st'"
  shows "\<exists>groups. pushOccurrence (keywordToOccurrences st) (keyword_class (ks a)) a = Inr groups \<and>
           st' = st\<lparr>keywordToOccurrences := groups,
                     keywordStore := (keywordStore st)(a := decorate req img (ks a))\<rparr>"
proof -
  from assms(1) have ksi: "keywordStoreInvariant req images ks (keywordStore st)"
    by (simp add: collected_def)
  have cls: "keyword_class (keywordStore st a) = keyword_class (ks a)"
    using ksi by (rule keywordStoreInvariant_class)
  have dec: "decorate req img (keywordStore st a) = decorate req img (ks a)"
    using ksi by (rule keywordStoreInvariant_decorate)
  from assms(2) have eq: "(case pushOccurrence (keywordToOccurrences st) (keyword_class (ks a)) a of
        Inl e \<Rightarrow> Inl e
      | Inr groups \<Rightarrow>
          Inr (st\<lparr>keywordToOccurrences := groups,
                  keywordStore := (keywordStore st)(a := decorate req img (ks a))\<rparr>)) = Inr st'"
    by (simp only: collectKeyword_def cls dec)
  show ?thesis
  proof (cases "pushOccurrence (keywordToOccurrences st) (keyword_class (ks a)) a")
    case (Inl e)
    with eq show ?thesis by simp
  next
    case (Inr groups)
    with eq show ?thesis by simp
  qed
qed

lemma pushOccurrence_keeps:
  assumes "pushOccurrence obj key b = Inr obj'" "map_of obj k = Some as" "a \<in> set as"
  shows "\<exists>as'. map_of obj' k = Some as' \<and> a \<in> set as'"
  using pushOccurrence_Inr(1) [OF assms(1)] assms(2,3) by (cases "k = key") auto

lemma pushOccurrence_adds:
  assumes "pushOccurrence obj key a = Inr obj'"
  shows "\<exists>as'. map_of obj' key = Some as' \<and> a \<in> set as'"
  using pushOccurrence_Inr(1) [OF assms(1)] by auto

subsection \<open>A visited detection stays visited\<close>

lemma collectFace_faceVisited:
  assumes "collected req images fs ks st" "img \<in> set images" "b \<in> set (faceAddresses img)"
    and "collectFace req img st b = Inr st'"
    and "faceVisited req images fs a st \<or> (a = b \<and> hasName (fs a))"
  shows "faceVisited req images fs a st'"
proof (cases "hasName (fs b)")
  case False
  with collectFace_result [OF assms(1,4)] have "st' = st" by simp
  with assms(5) False show ?thesis by auto
next
  case True
  with collectFace_result [OF assms(1,4)] obtain n people
    where n: "faceName (fs b) = Some n"
      and push: "pushOccurrence (peopleNameToOccurrences st) n b = Inr people"
      and st': "st' = st\<lparr>peopleNameToOccurrences := people,
                          faceStore := (faceStore st)(b := decorate req img (fs b))\<rparr>"
    by auto
  have group: "\<exists>k as. faceName (fs a) = Some k \<and> map_of people k = Some as \<and> a \<in> set as"
  proof (cases "a = b")
    case True
    with n pushOccurrence_adds [OF push] show ?thesis by auto
  next
    case False
    with assms(5) obtain k as where "faceName (fs a) = Some k"
        "map_of (peopleNameToOccurrences st) k = Some as" "a \<in> set as"
      by (auto simp: faceVisited_def)
    with pushOccurrence_keeps [OF push] show ?thesis by blast
  qed
  have store: "\<exists>i \<in> set images. a \<in> set (faceAddresses i) \<and>
      ((faceStore st)(b := decorate req img (fs b))) a = decorate req i (fs a)"
  proof (cases "a = b")
    case True
    with assms(2,3) show ?thesis by auto
  next
    case False
    with assms(5) show ?thesis by (auto simp: faceVisited_def)
  qed
  from group store show ?thesis by (simp add: faceVisited_def st')
qed

lemma collectKeyword_faceVisited:
  assumes "collected req images fs ks st" "collectKeyword req img st b = Inr st'"
    and "faceVisited req images fs a st"
  shows "faceVisited req images fs a st'"
proof -
  from collectKeyword_result [OF assms(1,2)] obtain groups where
    "st' = st\<lparr>keywordToOccurrences := groups,
              keywordStore := (keywordStore st)(b := decorate req img (ks b))\<rparr>"
    by blast
  with assms(3) show ?thesis by (simp add: faceVisited_def)
qed

lemma collectFace_keywordVisited:
  assumes "collected req images fs ks st" "collectFace req img st b = Inr st'"
    and "keywordVisited req images ks a st"
  shows "keywordVisited req images ks a st'"
proof (cases "hasName (fs b)")
  case False
  with collectFace_result [OF assms(1,2)] have "st' = st" by simp
  with assms(3) show ?thesis by simp
next
  case True
  with collectFace_result [OF assms(1,2)] obtain n people
    where "st' = st\<lparr>peopleNameToOccurrences := people,
                          faceStore := (faceStore st)(b := decorate req img (fs b))\<rparr>"
    by auto
  with assms(3) show ?thesis by (simp add: keywordVisited_def)
qed

lemma collectKeyword_keywordVisited:
  assumes "collected req images fs ks st" "img \<in> set images" "b \<in> set (keywordAddresses img)"
    and "collectKeyword req img st b = Inr st'"
    and "keywordVisited req images ks a st \<or> a = b"
  shows "keywordVisited req images ks a st'"
proof -
  from collectKeyword_result [OF assms(1,4)] obtain groups
    where push: "pushOccurrence (keywordToOccurrences st) (keyword_class (ks b)) b = Inr groups"
      and st': "st' = st\<lparr>keywordToOccurrences := groups,
                     keywordStore := (keywordStore st)(b := decorate req img (ks b))\<rparr>"
    by blast
  have group: "\<exists>as. map_of groups (keyword_class (ks a)) = Some as \<and> a \<in> set as"
  proof (cases "a = b")
    case True
    with pushOccurrence_adds [OF push] show ?thesis by auto
  next
    case False
    with assms(5) obtain as where
        "map_of (keywordToOccurrences st) (keyword_class (ks a)) = Some as" "a \<in> set as"
      by (auto simp: keywordVisited_def)
    with pushOccurrence_keeps [OF push] show ?thesis by blast
  qed
  have store: "\<exists>i \<in> set images. a \<in> set (keywordAddresses i) \<and>
      ((keywordStore st)(b := decorate req img (ks b))) a = decorate req i (ks a)"
  proof (cases "a = b")
    case True
    with assms(2,3) show ?thesis by auto
  next
    case False
    with assms(5) show ?thesis by (auto simp: keywordVisited_def)
  qed
  from group store show ?thesis by (simp add: keywordVisited_def st')
qed

subsection \<open>One image, all images\<close>

lemma collectImage_eq:
  "collectImage req st img =
     (case forEach (collectFace req img) (faceAddresses img) st of
        Inl e \<Rightarrow> Inl e
      | Inr st1 \<Rightarrow> forEach (collectKeyword req img) (keywordAddresses img) st1)"
  by (simp add: collectImage_def faceAddresses_def keywordAddresses_def
      split: option.splits sum.splits)

lemma collectImage_Inr:
  assumes "collectImage req st img = Inr st'"
  obtains st1 where "forEach (collectFace req img) (faceAddresses img) st = Inr st1"
    and "forEach (collectKeyword req img) (keywordAddresses img) st1 = Inr st'"
  using assms unfolding collectImage_eq by (auto split: sum.splits)

lemma faces_collected:
  assumes "forEach (collectFace req img) (faceAddresses img) st = Inr st'"
    and "collected req images fs ks st" "img \<in> set images"
  shows "collected req images fs ks st'"
  using assms(1,2)
proof (rule forEach_preserves)
  fix s a s'
  assume "a \<in> set (faceAddresses img)" "collected req images fs ks s" "collectFace req img s a = Inr s'"
  then show "collected req images fs ks s'"
    using assms(3) collectFace_collected by blast
qed

lemma keyword_loop_collected:
  assumes "forEach (collectKeyword req img) (keywordAddresses img) st = Inr st'"
    and "collected req images fs ks st" "img \<in> set images"
  shows "collected req images fs ks st'"
  using assms(1,2)
proof (rule forEach_preserves)
  fix s a s'
  assume "a \<in> set (keywordAddresses img)" "collected req images fs ks s"
    "collectKeyword req img s a = Inr s'"
  then show "collected req images fs ks s'"
    using assms(3) collectKeyword_collected by blast
qed

lemma collectImage_collected:
  assumes "collected req images fs ks st" "img \<in> set images" "collectImage req st img = Inr st'"
  shows "collected req images fs ks st'"
proof -
  from assms(3) obtain st1 where 1: "forEach (collectFace req img) (faceAddresses img) st = Inr st1"
    and 2: "forEach (collectKeyword req img) (keywordAddresses img) st1 = Inr st'"
    by (rule collectImage_Inr)
  from 1 assms(1,2) have "collected req images fs ks st1" by (rule faces_collected)
  with 2 show ?thesis using assms(2) by (rule keyword_loop_collected)
qed

lemma collected_initial:
  "collected req images fs ks
     \<lparr>faceStore = fs, keywordStore = ks, peopleNameToOccurrences = [], keywordToOccurrences = []\<rparr>"
  by (simp add: collected_def peopleInvariant_def keywordInvariant_def faceStoreInvariant_def
      keywordStoreInvariant_def)

lemma collect_collected:
  assumes "collect req images fs ks = Inr st"
  shows "collected req images fs ks st"
  using assms [unfolded collect_def] collected_initial
proof (rule forEach_preserves)
  fix s img s'
  assume "img \<in> set images" "collected req images fs ks s" "collectImage req s img = Inr s'"
  then show "collected req images fs ks s'"
    using collectImage_collected by blast
qed

lemma collectImage_faceVisited:
  assumes "collected req images fs ks st" "img \<in> set images" "collectImage req st img = Inr st'"
    and "faceVisited req images fs a st \<or> (a \<in> set (faceAddresses img) \<and> hasName (fs a))"
  shows "faceVisited req images fs a st'"
proof -
  let ?P = "collected req images fs ks"
  let ?Q = "faceVisited req images fs a"
  from assms(3) obtain st1 where 1: "forEach (collectFace req img) (faceAddresses img) st = Inr st1"
    and 2: "forEach (collectKeyword req img) (keywordAddresses img) st1 = Inr st'"
    by (rule collectImage_Inr)
  have P1: "?P st1" using 1 assms(1,2) by (rule faces_collected)
  have inv: "\<And>s b s'. b \<in> set (faceAddresses img) \<Longrightarrow> ?P s \<Longrightarrow> collectFace req img s b = Inr s' \<Longrightarrow> ?P s'"
    using assms(2) collectFace_collected by blast
  have pres: "\<And>s b s'. b \<in> set (faceAddresses img) \<Longrightarrow> ?P s \<Longrightarrow> ?Q s \<Longrightarrow>
      collectFace req img s b = Inr s' \<Longrightarrow> ?Q s'"
    using assms(2) collectFace_faceVisited by blast
  have Q1: "?Q st1"
  proof (cases "?Q st")
    case True
    have "?P st1 \<and> ?Q st1"
    proof (rule forEach_preserves [OF 1, of "\<lambda>s. ?P s \<and> ?Q s"])
      show "?P st \<and> ?Q st" using assms(1) True by simp
    next
      fix s b s'
      assume "b \<in> set (faceAddresses img)" "?P s \<and> ?Q s" "collectFace req img s b = Inr s'"
      then show "?P s' \<and> ?Q s'" using inv pres by blast
    qed
    then show ?thesis by simp
  next
    case False
    with assms(4) have a: "a \<in> set (faceAddresses img)" and named: "hasName (fs a)" by auto
    have est: "\<And>s s'. ?P s \<Longrightarrow> collectFace req img s a = Inr s' \<Longrightarrow> ?Q s'"
      using assms(2) a named collectFace_faceVisited by blast
    show ?thesis
      by (rule forEach_establishes [where P = "?P" and Q = "?Q", OF 1 assms(1) a inv est pres])
  qed
  have "?P st' \<and> ?Q st'"
  proof (rule forEach_preserves [OF 2, of "\<lambda>s. ?P s \<and> ?Q s"])
    show "?P st1 \<and> ?Q st1" using P1 Q1 by simp
  next
    fix s b s'
    assume "b \<in> set (keywordAddresses img)" "?P s \<and> ?Q s" "collectKeyword req img s b = Inr s'"
    then show "?P s' \<and> ?Q s'"
      using assms(2) collectKeyword_collected collectKeyword_faceVisited by blast
  qed
  then show ?thesis by simp
qed

lemma collectImage_keywordVisited:
  assumes "collected req images fs ks st" "img \<in> set images" "collectImage req st img = Inr st'"
    and "keywordVisited req images ks a st \<or> a \<in> set (keywordAddresses img)"
  shows "keywordVisited req images ks a st'"
proof -
  let ?P = "collected req images fs ks"
  let ?Q = "keywordVisited req images ks a"
  from assms(3) obtain st1 where 1: "forEach (collectFace req img) (faceAddresses img) st = Inr st1"
    and 2: "forEach (collectKeyword req img) (keywordAddresses img) st1 = Inr st'"
    by (rule collectImage_Inr)
  have P1: "?P st1" using 1 assms(1,2) by (rule faces_collected)
  have inv: "\<And>s b s'. b \<in> set (keywordAddresses img) \<Longrightarrow> ?P s \<Longrightarrow>
      collectKeyword req img s b = Inr s' \<Longrightarrow> ?P s'"
    using assms(2) collectKeyword_collected by blast
  have pres: "\<And>s b s'. b \<in> set (keywordAddresses img) \<Longrightarrow> ?P s \<Longrightarrow> ?Q s \<Longrightarrow>
      collectKeyword req img s b = Inr s' \<Longrightarrow> ?Q s'"
    using assms(2) collectKeyword_keywordVisited by blast
  show ?thesis
  proof (cases "?Q st")
    case True
    have "?P st1 \<and> ?Q st1"
    proof (rule forEach_preserves [OF 1, of "\<lambda>s. ?P s \<and> ?Q s"])
      show "?P st \<and> ?Q st" using assms(1) True by simp
    next
      fix s b s'
      assume "b \<in> set (faceAddresses img)" "?P s \<and> ?Q s" "collectFace req img s b = Inr s'"
      then show "?P s' \<and> ?Q s'"
        using assms(2) collectFace_collected collectFace_keywordVisited by blast
    qed
    then have "?P st1 \<and> ?Q st1" .
    have "?P st' \<and> ?Q st'"
    proof (rule forEach_preserves [OF 2, of "\<lambda>s. ?P s \<and> ?Q s"])
      show "?P st1 \<and> ?Q st1" by fact
    next
      fix s b s'
      assume "b \<in> set (keywordAddresses img)" "?P s \<and> ?Q s" "collectKeyword req img s b = Inr s'"
      then show "?P s' \<and> ?Q s'" using inv pres by blast
    qed
    then show ?thesis by simp
  next
    case False
    with assms(4) have a: "a \<in> set (keywordAddresses img)" by auto
    have est: "\<And>s s'. ?P s \<Longrightarrow> collectKeyword req img s a = Inr s' \<Longrightarrow> ?Q s'"
      using assms(2) a collectKeyword_keywordVisited by blast
    show ?thesis
      by (rule forEach_establishes [where P = "?P" and Q = "?Q", OF 2 P1 a inv est pres])
  qed
qed

lemma collect_faceVisited:
  assumes "collect req images fs ks = Inr st" "img \<in> set images"
    and "a \<in> set (faceAddresses img)" "hasName (fs a)"
  shows "faceVisited req images fs a st"
proof (rule forEach_establishes [where P = "collected req images fs ks"
      and Q = "faceVisited req images fs a",
      OF assms(1) [unfolded collect_def] collected_initial assms(2)])
  show "\<And>s y s'. y \<in> set images \<Longrightarrow> collected req images fs ks s \<Longrightarrow>
      collectImage req s y = Inr s' \<Longrightarrow> collected req images fs ks s'"
    using collectImage_collected by blast
  show "\<And>s s'. collected req images fs ks s \<Longrightarrow> collectImage req s img = Inr s' \<Longrightarrow>
      faceVisited req images fs a s'"
    using collectImage_faceVisited assms(2-4) by blast
  show "\<And>s y s'. y \<in> set images \<Longrightarrow> collected req images fs ks s \<Longrightarrow>
      faceVisited req images fs a s \<Longrightarrow> collectImage req s y = Inr s' \<Longrightarrow>
      faceVisited req images fs a s'"
    using collectImage_faceVisited by blast
qed

lemma collect_keywordVisited:
  assumes "collect req images fs ks = Inr st" "img \<in> set images"
    and "a \<in> set (keywordAddresses img)"
  shows "keywordVisited req images ks a st"
proof (rule forEach_establishes [where P = "collected req images fs ks"
      and Q = "keywordVisited req images ks a",
      OF assms(1) [unfolded collect_def] collected_initial assms(2)])
  show "\<And>s y s'. y \<in> set images \<Longrightarrow> collected req images fs ks s \<Longrightarrow>
      collectImage req s y = Inr s' \<Longrightarrow> collected req images fs ks s'"
    using collectImage_collected by blast
  show "\<And>s s'. collected req images fs ks s \<Longrightarrow> collectImage req s img = Inr s' \<Longrightarrow>
      keywordVisited req images ks a s'"
    using collectImage_keywordVisited assms(2,3) by blast
  show "\<And>s y s'. y \<in> set images \<Longrightarrow> collected req images fs ks s \<Longrightarrow>
      keywordVisited req images ks a s \<Longrightarrow> collectImage req s y = Inr s' \<Longrightarrow>
      keywordVisited req images ks a s'"
    using collectImage_keywordVisited by blast
qed

subsection \<open>What the collecting loop leaves\<close>

lemma collect_people_named:
  assumes "collect req images fs ks = Inr st"
    and "map_of (peopleNameToOccurrences st) k = Some as" "a \<in> set as"
  shows "faceName (fs a) = Some k \<and> k \<noteq> [] \<and> hasName (fs a) \<and>
         identity (faceStore st a) = identity (fs a)"
proof -
  from collect_collected [OF assms(1)]
  have p: "peopleInvariant images fs (peopleNameToOccurrences st)"
    and f: "faceStoreInvariant req images fs (faceStore st)"
    by (simp_all add: collected_def)
  from p assms(2,3) have "faceName (fs a) = Some k \<and> k \<noteq> []"
    unfolding peopleInvariant_def by blast
  then show ?thesis
    using faceStoreInvariant_identity [OF f] by (auto simp: hasName_faceName)
qed

lemma invariant_groupsWellFormed:
  assumes "distinct (map fst obj)" "\<And>k as. map_of obj k = Some as \<Longrightarrow> as \<noteq> []"
  shows "groupsWellFormed obj"
proof -
  have "snd p \<noteq> []" if "p \<in> set obj" for p
  proof -
    from that assms(1) have "map_of obj (fst p) = Some (snd p)" by simp
    then show ?thesis by (rule assms(2))
  qed
  with assms(1) show ?thesis by (simp add: groupsWellFormed_def list_all_iff)
qed

lemma collect_groupsWellFormed:
  assumes "collect req images fs ks = Inr st"
  shows "groupsWellFormed (peopleNameToOccurrences st)"
    and "groupsWellFormed (keywordToOccurrences st)"
proof -
  from collect_collected [OF assms]
  have p: "peopleInvariant images fs (peopleNameToOccurrences st)"
    and k: "keywordInvariant images ks (keywordToOccurrences st)"
    by (simp_all add: collected_def)
  show "groupsWellFormed (peopleNameToOccurrences st)"
    using p unfolding peopleInvariant_def by (intro invariant_groupsWellFormed) blast+
  show "groupsWellFormed (keywordToOccurrences st)"
    using k unfolding keywordInvariant_def by (intro invariant_groupsWellFormed) blast+
qed

text \<open>Once the images are collected, the two filters return.\<close>

lemma summarize_collect:
  "summarize req images fs ks =
     (case collect req images fs ks of
        Inl e \<Rightarrow> Inl e
      | Inr st \<Rightarrow>
          Inr (st,
            \<lparr>summary_face_detection =
               map snd (keptEntries (faceAccessor summaryOptions (faceStore st))
                 (peopleNameToOccurrences st)),
             summary_image_keywords =
               map snd (keptEntries (keywordAccessor summaryOptions (keywordStore st))
                 (keywordToOccurrences st))\<rparr>))"
proof (cases "collect req images fs ks")
  case (Inl e)
  then show ?thesis by (simp add: summarize_def)
next
  case (Inr st)
  note wf = collect_groupsWellFormed [OF Inr, THEN groupsWellFormed_callWellFormed]
  show ?thesis
    by (simp add: summarize_def Inr filterOccurrences_returns_keptEntries [OF wf(1)]
        filterOccurrences_returns_keptEntries [OF wf(2)])
qed

lemma summarize_Inr:
  assumes "summarize req images fs ks = Inr (st, out)"
  shows "collect req images fs ks = Inr st"
    and "summary_face_detection out =
           map snd (keptEntries (faceAccessor summaryOptions (faceStore st))
             (peopleNameToOccurrences st))"
    and "summary_image_keywords out =
           map snd (keptEntries (keywordAccessor summaryOptions (keywordStore st))
             (keywordToOccurrences st))"
  using assms unfolding summarize_collect by (auto split: sum.splits)

lemma keptEntries_occurrence:
  assumes "distinct (map fst obj)" "e \<in> set (map snd (keptEntries acc obj))" "a \<in> set (occurrences e)"
  shows "\<exists>k occs. map_of obj k = Some occs \<and> a \<in> set occs"
proof -
  from assms(2) obtain k where "(k, e) \<in> set (keptEntries acc obj)" by auto
  then have "(k, occurrences e) \<in> set (filterPass acc obj)"
    by (rule keptEntries_member [OF assms(1)])
  then obtain occs where "map_of obj k = Some occs" "occurrences e = bestOf acc occs"
    by (auto simp: filterPass_member [OF assms(1)])
  with assms(3) set_bestOf [of acc occs] show ?thesis by auto
qed

text \<open>
  In a run that completes, a face without a name is in no group and in no entry of the
  summary, and every keyword detection of the images is in the group of its class.
\<close>

lemma unnamed_face_in_no_group:
  assumes "collect req images fs ks = Inr st" "\<not> hasName (fs a)"
  shows "a \<notin> \<Union> (set ` snd ` set (peopleNameToOccurrences st))"
proof
  assume "a \<in> \<Union> (set ` snd ` set (peopleNameToOccurrences st))"
  then obtain k as where mem: "(k, as) \<in> set (peopleNameToOccurrences st)" and a: "a \<in> set as"
    by auto
  from collect_groupsWellFormed(1) [OF assms(1)]
  have "distinct (map fst (peopleNameToOccurrences st))" by (simp add: groupsWellFormed_def)
  with mem have "map_of (peopleNameToOccurrences st) k = Some as" by simp
  from collect_people_named [OF assms(1) this a] assms(2) show False by simp
qed

lemma unnamed_face_in_no_summary:
  assumes "summarize req images fs ks = Inr (st, out)" "\<not> hasName (fs a)"
  shows "a \<notin> \<Union> (set ` occurrences ` set (summary_face_detection out))"
proof
  assume "a \<in> \<Union> (set ` occurrences ` set (summary_face_detection out))"
  then obtain e where e: "e \<in> set (summary_face_detection out)" and a: "a \<in> set (occurrences e)"
    by auto
  note c = summarize_Inr(1) [OF assms(1)]
  from collect_groupsWellFormed(1) [OF c]
  have d: "distinct (map fst (peopleNameToOccurrences st))" by (simp add: groupsWellFormed_def)
  from e have "e \<in> set (map snd (keptEntries (faceAccessor summaryOptions (faceStore st))
             (peopleNameToOccurrences st)))"
    by (simp only: summarize_Inr(2) [OF assms(1)])
  from keptEntries_occurrence [OF d this a] obtain k occs
    where "map_of (peopleNameToOccurrences st) k = Some occs" "a \<in> set occs" by blast
  from collect_people_named [OF c this] assms(2) show False by simp
qed

lemma keyword_in_its_group:
  assumes "collect req images fs ks = Inr st" "img \<in> set images" "a \<in> set (keywordAddresses img)"
  shows "\<exists>as. map_of (keywordToOccurrences st) (keyword_class (ks a)) = Some as \<and> a \<in> set as"
  using collect_keywordVisited [OF assms] by (simp add: keywordVisited_def)

text \<open>
  The loop completes exactly when no name of a named face and no class of a keyword is
  a name inherited from \<open>Object.prototype\<close>.
\<close>

lemma collect_Inr_keys:
  assumes "collect req images fs ks = Inr st" "img \<in> set images"
  shows "a \<in> set (keywordAddresses img) \<Longrightarrow> keyword_class (ks a) \<notin> set objectPrototypeNames"
    and "a \<in> set (faceAddresses img) \<Longrightarrow> faceName (fs a) = Some n \<Longrightarrow> n \<noteq> [] \<Longrightarrow>
         n \<notin> set objectPrototypeNames"
proof -
  from collect_collected [OF assms(1)]
  have p: "peopleInvariant images fs (peopleNameToOccurrences st)"
    and k: "keywordInvariant images ks (keywordToOccurrences st)"
    by (simp_all add: collected_def)
  show "keyword_class (ks a) \<notin> set objectPrototypeNames" if "a \<in> set (keywordAddresses img)"
    using collect_keywordVisited [OF assms that] k
    unfolding keywordVisited_def keywordInvariant_def by blast
  show "n \<notin> set objectPrototypeNames"
    if "a \<in> set (faceAddresses img)" "faceName (fs a) = Some n" "n \<noteq> []"
  proof -
    from that(2,3) have "hasName (fs a)" by (auto simp: hasName_faceName)
    from collect_faceVisited [OF assms that(1) this] that(2) p show ?thesis
      unfolding faceVisited_def peopleInvariant_def by auto
  qed
qed

lemma collectKeyword_returns:
  assumes "collected req images fs ks st" "img \<in> set images" "a \<in> set (keywordAddresses img)"
    and "keyword_class (ks a) \<notin> set objectPrototypeNames"
  shows "\<exists>st'. collectKeyword req img st a = Inr st' \<and> collected req images fs ks st'"
proof -
  from assms(1) have ksi: "keywordStoreInvariant req images ks (keywordStore st)"
    by (simp add: collected_def)
  have cls: "keyword_class (keywordStore st a) = keyword_class (ks a)"
    using ksi by (rule keywordStoreInvariant_class)
  from pushOccurrence_returns [OF assms(4)] obtain groups
    where "pushOccurrence (keywordToOccurrences st) (keyword_class (ks a)) a = Inr groups"
    by blast
  then have "\<exists>st'. collectKeyword req img st a = Inr st'"
    by (simp add: collectKeyword_def cls)
  then show ?thesis using collectKeyword_collected [OF assms(1-3)] by blast
qed

lemma collectFace_returns:
  assumes "collected req images fs ks st" "img \<in> set images" "a \<in> set (faceAddresses img)"
    and "\<And>n. faceName (fs a) = Some n \<Longrightarrow> n \<notin> set objectPrototypeNames"
  shows "\<exists>st'. collectFace req img st a = Inr st' \<and> collected req images fs ks st'"
proof -
  from assms(1) have fsi: "faceStoreInvariant req images fs (faceStore st)"
    by (simp add: collected_def)
  have "\<exists>st'. collectFace req img st a = Inr st'"
  proof (cases "hasName (faceStore st a)")
    case False
    then show ?thesis by (simp add: collectFace_unnamed)
  next
    case True
    then obtain n where n: "faceName (faceStore st a) = Some n" "n \<noteq> []"
      by (auto simp: hasName_faceName)
    then have "faceName (fs a) = Some n"
      using faceStoreInvariant_faceName [OF fsi] by simp
    from pushOccurrence_returns [OF assms(4) [OF this]] obtain people
      where "pushOccurrence (peopleNameToOccurrences st) n a = Inr people" by blast
    then show ?thesis by (simp add: collectFace_named [OF n])
  qed
  then show ?thesis using collectFace_collected [OF assms(1-3)] by blast
qed

lemma collectImage_returns:
  assumes "collected req images fs ks st" "img \<in> set images"
    and "\<And>a n. a \<in> set (faceAddresses img) \<Longrightarrow> faceName (fs a) = Some n \<Longrightarrow>
           n \<notin> set objectPrototypeNames"
    and "\<And>a. a \<in> set (keywordAddresses img) \<Longrightarrow> keyword_class (ks a) \<notin> set objectPrototypeNames"
  shows "\<exists>st'. collectImage req st img = Inr st' \<and> collected req images fs ks st'"
proof -
  have "\<exists>st1. forEach (collectFace req img) (faceAddresses img) st = Inr st1 \<and>
          collected req images fs ks st1"
    using assms(1)
  proof (rule forEach_returns)
    fix s a
    assume "a \<in> set (faceAddresses img)" "collected req images fs ks s"
    then show "\<exists>s'. collectFace req img s a = Inr s' \<and> collected req images fs ks s'"
      using collectFace_returns assms(2,3) by blast
  qed
  then obtain st1 where 1: "forEach (collectFace req img) (faceAddresses img) st = Inr st1"
    and c1: "collected req images fs ks st1" by blast
  have "\<exists>st'. forEach (collectKeyword req img) (keywordAddresses img) st1 = Inr st' \<and>
          collected req images fs ks st'"
    using c1
  proof (rule forEach_returns)
    fix s a
    assume "a \<in> set (keywordAddresses img)" "collected req images fs ks s"
    then show "\<exists>s'. collectKeyword req img s a = Inr s' \<and> collected req images fs ks s'"
      using collectKeyword_returns assms(2,4) by blast
  qed
  with 1 show ?thesis by (simp add: collectImage_eq)
qed

lemma collect_returns:
  assumes "\<And>img a n. img \<in> set images \<Longrightarrow> a \<in> set (faceAddresses img) \<Longrightarrow>
             faceName (fs a) = Some n \<Longrightarrow> n \<notin> set objectPrototypeNames"
    and "\<And>img a. img \<in> set images \<Longrightarrow> a \<in> set (keywordAddresses img) \<Longrightarrow>
             keyword_class (ks a) \<notin> set objectPrototypeNames"
  shows "\<exists>st. collect req images fs ks = Inr st"
proof -
  have "\<exists>st. forEach (collectImage req) images
       \<lparr>faceStore = fs, keywordStore = ks, peopleNameToOccurrences = [], keywordToOccurrences = []\<rparr>
       = Inr st \<and> collected req images fs ks st"
    using collected_initial
  proof (rule forEach_returns)
    fix s img
    assume "img \<in> set images" "collected req images fs ks s"
    then show "\<exists>s'. collectImage req s img = Inr s' \<and> collected req images fs ks s'"
      using collectImage_returns [of req images fs ks s img] assms by blast
  qed
  then show ?thesis by (auto simp: collect_def)
qed

section \<open>The claims\<close>

text \<open>
  C1, as the code has it. The first loop of \<open>filterOccurrences\<close> (lines 287 to 321)
  keeps a key \<open>k\<close> of the group map if and only if the group of \<open>k\<close> has at least
  \<open>minimumOccurrence\<close> occurrences and at least \<open>minimumScoreOccurrence\<close> of them
  have a score of at least \<open>minimumScore\<close>. A key that fails either bar is deleted from
  the map and has no entry in the returned array. The returned array has exactly the
  keys that pass both bars, one entry for each, whenever \<open>maximumOccurrenceCount\<close>
  does not cut it; an entry of the array is always built from the group of a key that
  passes both bars.
\<close>

theorem filter_keeps_iff_both_bars:
  assumes "distinct (map fst obj)"
  shows "(k \<in> fst ` set (filterPass acc obj) \<longleftrightarrow>
            (\<exists>occs. map_of obj k = Some occs \<and>
               int (length occs) \<ge> minimumOccurrence acc \<and>
               int (length (filter (\<lambda>occur. score acc occur \<ge> minimumScore acc) occs))
                 \<ge> minimumScoreOccurrence acc)) \<and>
         (k \<notin> fst ` set (filterPass acc obj) \<longrightarrow>
            map_of (filterPass acc obj) k = None \<and> k \<notin> set (keptKeys acc obj)) \<and>
         (notTruncated acc obj \<longrightarrow>
            (k \<in> set (keptKeys acc obj) \<longleftrightarrow>
               (\<exists>occs. map_of obj k = Some occs \<and>
                  int (length occs) \<ge> minimumOccurrence acc \<and>
                  int (length (filter (\<lambda>occur. score acc occur \<ge> minimumScore acc) occs))
                    \<ge> minimumScoreOccurrence acc)) \<and>
            mset (map snd (keptEntries acc obj)) =
              mset (map (\<lambda>p. \<lparr>occurrences = bestOf acc (snd p)\<rparr>)
                     (filter (\<lambda>p. passesBothBars acc (snd p)) obj))) \<and>
         (\<forall>e. (k, e) \<in> set (keptEntries acc obj) \<longrightarrow>
            (\<exists>occs. map_of obj k = Some occs \<and> passesBothBars acc occs \<and>
               occurrences e = bestOf acc occs)) \<and>
         distinct (keptKeys acc obj) \<and>
         (callWellFormed acc obj \<longrightarrow>
            filterOccurrences acc obj = Inr (map snd (keptEntries acc obj)))"
proof -
  let ?passes = "\<exists>occs. map_of obj k = Some occs \<and>
               int (length occs) \<ge> minimumOccurrence acc \<and>
               int (length (filter (\<lambda>occur. score acc occur \<ge> minimumScore acc) occs))
                 \<ge> minimumScoreOccurrence acc"
  have "k \<in> fst ` set (filterPass acc obj) \<longleftrightarrow> (\<exists>v. (k, v) \<in> set (filterPass acc obj))"
    by force
  then have "k \<in> fst ` set (filterPass acc obj) \<longleftrightarrow>
        (\<exists>occs. map_of obj k = Some occs \<and> keepIt acc occs)"
    by (simp add: filterPass_member [OF assms])
  then have 1: "k \<in> fst ` set (filterPass acc obj) \<longleftrightarrow> ?passes"
    by (simp add: keepIt_iff passesBothBars_def)
  have 2: "k \<notin> fst ` set (filterPass acc obj) \<longrightarrow>
      map_of (filterPass acc obj) k = None \<and> k \<notin> set (keptKeys acc obj)"
    using keptKeys_subset [of acc obj] by (auto simp: map_of_eq_None_iff)
  have 3: "notTruncated acc obj \<longrightarrow>
      (k \<in> set (keptKeys acc obj) \<longleftrightarrow> ?passes) \<and>
      mset (map snd (keptEntries acc obj)) =
        mset (map (\<lambda>p. \<lparr>occurrences = bestOf acc (snd p)\<rparr>)
               (filter (\<lambda>p. passesBothBars acc (snd p)) obj))"
    using 1 notTruncated_keptKeys [of acc obj] notTruncated_returned [OF assms, of acc]
    by simp
  have 4: "\<forall>e. (k, e) \<in> set (keptEntries acc obj) \<longrightarrow>
      (\<exists>occs. map_of obj k = Some occs \<and> passesBothBars acc occs \<and>
         occurrences e = bestOf acc occs)"
    using keptEntries_origin [OF assms] by blast
  have 5: "distinct (keptKeys acc obj)"
    using assms by (rule distinct_keptKeys)
  have 6: "callWellFormed acc obj \<longrightarrow>
      filterOccurrences acc obj = Inr (map snd (keptEntries acc obj))"
    by (simp add: filterOccurrences_returns_keptEntries)
  from 1 2 3 4 5 6 show ?thesis by blast
qed

text \<open>
  The first two scenarios of the specification, without a cap: \<open>alice\<close> with the
  scores 0.9, 0.6 and 0.95 is returned when two scores of at least 0.85 are asked for,
  and nothing is returned when three are.
\<close>

theorem filter_keeps_iff_both_bars_witness:
  "distinct (map fst [(''alice'', [0.9, 0.6, 0.95 :: real])]) \<and>
   ''alice'' \<in> fst ` set (filterPass
      \<lparr>score = (\<lambda>x. x), minimumOccurrence = 2, minimumScore = 0.85,
       minimumScoreOccurrence = 2, maximumOccurrenceCount = None\<rparr>
      [(''alice'', [0.9, 0.6, 0.95])]) \<and>
   ''alice'' \<in> set (keptKeys
      \<lparr>score = (\<lambda>x. x), minimumOccurrence = 2, minimumScore = 0.85,
       minimumScoreOccurrence = 2, maximumOccurrenceCount = None\<rparr>
      [(''alice'', [0.9, 0.6, 0.95 :: real])]) \<and>
   filterOccurrences
      \<lparr>score = (\<lambda>x. x), minimumOccurrence = 2, minimumScore = 0.85,
       minimumScoreOccurrence = 2, maximumOccurrenceCount = None\<rparr>
      [(''alice'', [0.9, 0.6, 0.95 :: real])] = Inr [\<lparr>occurrences = [0.95]\<rparr>] \<and>
   ''alice'' \<notin> fst ` set (filterPass
      \<lparr>score = (\<lambda>x. x), minimumOccurrence = 2, minimumScore = 0.85,
       minimumScoreOccurrence = 3, maximumOccurrenceCount = None\<rparr>
      [(''alice'', [0.9, 0.6, 0.95 :: real])]) \<and>
   ''alice'' \<notin> set (keptKeys
      \<lparr>score = (\<lambda>x. x), minimumOccurrence = 2, minimumScore = 0.85,
       minimumScoreOccurrence = 3, maximumOccurrenceCount = None\<rparr>
      [(''alice'', [0.9, 0.6, 0.95 :: real])]) \<and>
   filterOccurrences
      \<lparr>score = (\<lambda>x. x), minimumOccurrence = 2, minimumScore = 0.85,
       minimumScoreOccurrence = 3, maximumOccurrenceCount = None\<rparr>
      [(''alice'', [0.9, 0.6, 0.95 :: real])] = Inr []"
proof -
  let ?obj = "[(''alice'', [0.9, 0.6, 0.95 :: real])]"
  let ?two = "\<lparr>score = (\<lambda>x. x), minimumOccurrence = 2, minimumScore = 0.85,
       minimumScoreOccurrence = 2, maximumOccurrenceCount = None\<rparr> :: real accessor"
  let ?three = "\<lparr>score = (\<lambda>x. x), minimumOccurrence = 2, minimumScore = 0.85,
       minimumScoreOccurrence = 3, maximumOccurrenceCount = None\<rparr> :: real accessor"
  have d: "distinct (map fst ?obj)"
    by simp
  have nt: "notTruncated ?two ?obj" "notTruncated ?three ?obj"
    by (simp_all add: notTruncated_def)
  have wf: "callWellFormed ?two ?obj" "callWellFormed ?three ?obj"
    by code_simp+
  have entries: "map snd (keptEntries ?two ?obj) = [\<lparr>occurrences = [0.95]\<rparr>]"
    "map snd (keptEntries ?three ?obj) = []"
    by code_simp+
  from filter_keeps_iff_both_bars [OF d, of "''alice''" ?two]
    filter_keeps_iff_both_bars [OF d, of "''alice''" ?three] d nt wf entries
  show ?thesis by simp
qed

text \<open>
  C1 as stated fails under a cap. In the third scenario of the specification the key
  \<open>a\<close> passes both bars and survives the first loop, and the cap 1 leaves \<open>b\<close>
  alone in the returned array.
\<close>

theorem passing_key_cut_by_cap_counterexample:
  "map_of [(''a'', [0.9, 0.9, 0.9 :: real]), (''b'', [0.99, 0.99])] ''a'' = Some [0.9, 0.9, 0.9] \<and>
   passesBothBars
      \<lparr>score = (\<lambda>x. x), minimumOccurrence = 2, minimumScore = 0.5,
       minimumScoreOccurrence = 1, maximumOccurrenceCount = Some 1\<rparr>
      [0.9, 0.9, 0.9 :: real] \<and>
   map fst (filterPass
      \<lparr>score = (\<lambda>x. x), minimumOccurrence = 2, minimumScore = 0.5,
       minimumScoreOccurrence = 1, maximumOccurrenceCount = Some 1\<rparr>
      [(''a'', [0.9, 0.9, 0.9 :: real]), (''b'', [0.99, 0.99])]) = [''a'', ''b''] \<and>
   keptKeys
      \<lparr>score = (\<lambda>x. x), minimumOccurrence = 2, minimumScore = 0.5,
       minimumScoreOccurrence = 1, maximumOccurrenceCount = Some 1\<rparr>
      [(''a'', [0.9, 0.9, 0.9 :: real]), (''b'', [0.99, 0.99])] = [''b''] \<and>
   filterOccurrences
      \<lparr>score = (\<lambda>x. x), minimumOccurrence = 2, minimumScore = 0.5,
       minimumScoreOccurrence = 1, maximumOccurrenceCount = Some 1\<rparr>
      [(''a'', [0.9, 0.9, 0.9 :: real]), (''b'', [0.99, 0.99])]
     = Inr [\<lparr>occurrences = [0.99]\<rparr>]"
  by code_simp

text \<open>
  C2. In a call where no kept group can be empty (distinct keys, and no empty group or
  a count of at least 1 asked for), \<open>filterOccurrences\<close> returns, and every key it
  keeps retains exactly one occurrence:
  an occurrence of the original group of the key whose score is the maximum over that
  group and, among the occurrences of maximal score, the first one in the order of the
  group. This holds for the properties left in the group map by the first loop and for
  the entries of the returned array.
\<close>

theorem kept_key_retains_first_maximum:
  assumes "callWellFormed acc obj"
    and "(k, kept) \<in> set (filterPass acc obj) \<or>
         (\<exists>e. (k, e) \<in> set (keptEntries acc obj) \<and> kept = occurrences e)"
  shows "filterOccurrences acc obj = Inr (map snd (keptEntries acc obj)) \<and>
         (\<exists>occs i. map_of obj k = Some occs \<and> i < length occs \<and> kept = [occs ! i] \<and>
            (\<forall>j < length occs. score acc (occs ! j) \<le> score acc (occs ! i)) \<and>
            (\<forall>j < i. score acc (occs ! j) < score acc (occs ! i)))"
proof -
  from assms(1) have d: "distinct (map fst obj)" by (simp add: callWellFormed_def)
  from assms(2) have mem: "(k, kept) \<in> set (filterPass acc obj)"
    using keptEntries_member [OF d] by blast
  then obtain occs where occs: "map_of obj k = Some occs" "kept = bestOf acc occs"
    by (auto simp: filterPass_member [OF d])
  have "kept \<noteq> []" using mem by (rule filterPass_nonempty [OF assms(1)])
  with occs have "occs \<noteq> []" by simp
  from bestOf_first_maximum [OF this, of acc] occs
  have "\<exists>occs i. map_of obj k = Some occs \<and> i < length occs \<and> kept = [occs ! i] \<and>
            (\<forall>j < length occs. score acc (occs ! j) \<le> score acc (occs ! i)) \<and>
            (\<forall>j < i. score acc (occs ! j) < score acc (occs ! i))"
    by blast
  then show ?thesis
    using filterOccurrences_returns_keptEntries [OF assms(1)] by blast
qed

text \<open>
  An occurrence is here a pair of a frame number and a score. \<open>alice\<close> has two
  occurrences of score 0.95, in the frames 1 and 3: the one of frame 1 is retained.
\<close>

theorem kept_key_retains_first_maximum_witness:
  "callWellFormed
      \<lparr>score = snd, minimumOccurrence = 2, minimumScore = 0.85,
       minimumScoreOccurrence = 2, maximumOccurrenceCount = None\<rparr>
      [(''alice'', [(0::nat, 0.9::real), (1, 0.95), (2, 0.6), (3, 0.95)])] \<and>
   (''alice'', [(1, 0.95)]) \<in> set (filterPass
      \<lparr>score = snd, minimumOccurrence = 2, minimumScore = 0.85,
       minimumScoreOccurrence = 2, maximumOccurrenceCount = None\<rparr>
      [(''alice'', [(0::nat, 0.9::real), (1, 0.95), (2, 0.6), (3, 0.95)])]) \<and>
   filterOccurrences
      \<lparr>score = snd, minimumOccurrence = 2, minimumScore = 0.85,
       minimumScoreOccurrence = 2, maximumOccurrenceCount = None\<rparr>
      [(''alice'', [(0::nat, 0.9::real), (1, 0.95), (2, 0.6), (3, 0.95)])]
     = Inr [\<lparr>occurrences = [(1, 0.95)]\<rparr>] \<and>
   (\<exists>occs i. map_of [(''alice'', [(0::nat, 0.9::real), (1, 0.95), (2, 0.6), (3, 0.95)])] ''alice''
        = Some occs \<and> i < length occs \<and> [(1, 0.95)] = [occs ! i] \<and>
      (\<forall>j < length occs. snd (occs ! j) \<le> snd (occs ! i)) \<and>
      (\<forall>j < i. snd (occs ! j) < snd (occs ! i)))"
proof -
  let ?obj = "[(''alice'', [(0::nat, 0.9::real), (1, 0.95), (2, 0.6), (3, 0.95)])]"
  let ?acc = "\<lparr>score = snd, minimumOccurrence = 2, minimumScore = 0.85,
       minimumScoreOccurrence = 2, maximumOccurrenceCount = None\<rparr> :: (nat \<times> real) accessor"
  have wf: "callWellFormed ?acc ?obj"
    by code_simp
  have kept: "(''alice'', [(1, 0.95)]) \<in> set (filterPass ?acc ?obj)"
    by code_simp
  have entries: "map snd (keptEntries ?acc ?obj) = [\<lparr>occurrences = [(1, 0.95)]\<rparr>]"
    by code_simp
  from kept_key_retains_first_maximum [OF wf disjI1 [OF kept]] wf kept entries
  show ?thesis by simp
qed

text \<open>
  C3, as the code has it. The summary endpoint calls the filter on the faces with
  \<open>minimumOccurrence = 3\<close>, \<open>minimumScore = 0.85\<close>, \<open>minimumScoreOccurrence = 2\<close>
  and no cap, and on the keywords with \<open>minimumOccurrence = 1\<close>,
  \<open>minimumScore = 0.60\<close>, \<open>minimumScoreOccurrence = 1\<close> and a cap of 5. (The values
  5, 0.70, 1 and 5 are those of the label options, which no call reads.)
\<close>

theorem summary_thresholds:
  "summarize req images fs ks =
     (case collect req images fs ks of
        Inl e \<Rightarrow> Inl e
      | Inr st \<Rightarrow>
          (case filterOccurrences
                  \<lparr>score = (\<lambda>a. identity_score (the (identity (faceStore st a)))),
                   minimumOccurrence = 3, minimumScore = 0.85,
                   minimumScoreOccurrence = 2, maximumOccurrenceCount = None\<rparr>
                  (peopleNameToOccurrences st) of
             Inl e \<Rightarrow> Inl e
           | Inr people \<Rightarrow>
               (case filterOccurrences
                       \<lparr>score = (\<lambda>a. keyword_score (keywordStore st a)),
                        minimumOccurrence = 1, minimumScore = 0.60,
                        minimumScoreOccurrence = 1, maximumOccurrenceCount = Some 5\<rparr>
                       (keywordToOccurrences st) of
                  Inl e \<Rightarrow> Inl e
                | Inr kws \<Rightarrow>
                    Inr (st, \<lparr>summary_face_detection = people,
                              summary_image_keywords = kws\<rparr>))))"
  by (simp add: summarize_def faceAccessor_def keywordAccessor_def summaryOptions_def
      split: sum.splits)

text \<open>
  C3 as stated fails for the keywords. In the video of three frames \<open>cat\<close> has two
  detections, with the scores 0.65 and 0.5: the endpoint keeps it, and the thresholds of
  the claim (five occurrences, one of them of at least 0.70) would drop it.
\<close>

theorem keyword_thresholds_counterexample:
  "(case summarize exampleRequest exampleImages exampleFaces exampleKeywords of
      Inl e \<Rightarrow> False
    | Inr (st, out) \<Rightarrow>
        keywordToOccurrences st = [(''cat'', [0, 1])] \<and>
        summary_image_keywords out = [\<lparr>occurrences = [0]\<rparr>]) \<and>
   filterOccurrences
     \<lparr>score = (\<lambda>a. keyword_score (exampleKeywords a)),
      minimumOccurrence = 5, minimumScore = 0.70,
      minimumScoreOccurrence = 1, maximumOccurrenceCount = Some 5\<rparr>
     [(''cat'', [0, 1])] = Inr [] \<and>
   minimumOccurrence (keywordAccessor summaryOptions exampleKeywords) \<noteq> 5 \<and>
   minimumScore (keywordAccessor summaryOptions exampleKeywords) \<noteq> 0.70"
  by code_simp

text \<open>
  C4, as the code has it. \<open>filterOccurrences\<close> does not check its thresholds: no
  input makes it raise a \<open>ConfigurationError\<close>, and on a group map as the collecting
  loop builds it the call returns whatever the thresholds are. A \<open>minimumOccurrence\<close>
  of 0 or less is a bar every group passes: a key then survives the first loop exactly
  when enough of its occurrences reach \<open>minimumScore\<close>, and when
  \<open>minimumScoreOccurrence\<close> is 0 or less as well, every key survives it. The keys of
  the returned array are then these surviving keys whenever \<open>maximumOccurrenceCount\<close>
  does not cut the array.
\<close>

theorem thresholds_are_not_validated:
  "filterOccurrences acc obj \<noteq> Inl ConfigurationError \<and>
   (groupsWellFormed obj \<longrightarrow> filterOccurrences acc obj = Inr (map snd (keptEntries acc obj))) \<and>
   (distinct (map fst obj) \<and> minimumOccurrence acc \<le> 0 \<longrightarrow>
      fst ` set (filterPass acc obj) =
        {k. \<exists>occs. map_of obj k = Some occs \<and>
             int (length (filter (\<lambda>occur. score acc occur \<ge> minimumScore acc) occs))
               \<ge> minimumScoreOccurrence acc} \<and>
      (notTruncated acc obj \<longrightarrow>
         set (keptKeys acc obj) =
           {k. \<exists>occs. map_of obj k = Some occs \<and>
                int (length (filter (\<lambda>occur. score acc occur \<ge> minimumScore acc) occs))
                  \<ge> minimumScoreOccurrence acc})) \<and>
   (distinct (map fst obj) \<and> minimumOccurrence acc \<le> 0 \<and> minimumScoreOccurrence acc \<le> 0 \<longrightarrow>
      map fst (filterPass acc obj) = map fst obj \<and>
      (notTruncated acc obj \<longrightarrow>
         set (keptKeys acc obj) = fst ` set obj \<and>
         length (keptKeys acc obj) = length obj))"
proof -
  have 1: "filterOccurrences acc obj \<noteq> Inl ConfigurationError"
    by (auto simp: filterOccurrences_def sortResult_def split: sum.splits if_splits)
  have 2: "groupsWellFormed obj \<longrightarrow> filterOccurrences acc obj = Inr (map snd (keptEntries acc obj))"
    by (simp add: filterOccurrences_returns_keptEntries groupsWellFormed_callWellFormed)
  have 3: "fst ` set (filterPass acc obj) =
        {k. \<exists>occs. map_of obj k = Some occs \<and>
             int (length (filter (\<lambda>occur. score acc occur \<ge> minimumScore acc) occs))
               \<ge> minimumScoreOccurrence acc}"
    if "distinct (map fst obj)" "minimumOccurrence acc \<le> 0"
  proof -
    have "passesBothBars acc occs \<longleftrightarrow>
          int (length (filter (\<lambda>occur. score acc occur \<ge> minimumScore acc) occs))
            \<ge> minimumScoreOccurrence acc" for occs
      using that(2) by (auto simp: passesBothBars_def)
    then show ?thesis by (simp add: keys_filterPass_set [OF that(1)])
  qed
  have 4: "map fst (filterPass acc obj) = map fst obj"
    if "distinct (map fst obj)" "minimumOccurrence acc \<le> 0" "minimumScoreOccurrence acc \<le> 0"
  proof -
    have "keepIt acc occs" for occs
      using that(2,3) by (auto simp: keepIt_iff passesBothBars_def)
    then show ?thesis by (simp add: filterPass_keys [OF that(1)])
  qed
  have 5: "set (keptKeys acc obj) = fst ` set (filterPass acc obj)" if "notTruncated acc obj"
    using that by (rule notTruncated_keptKeys)
  have 6: "length (keptKeys acc obj) = length (filterPass acc obj)" if "notTruncated acc obj"
    using that by (rule notTruncated_length)
  have 7: "set (keptKeys acc obj) = fst ` set obj \<and> length (keptKeys acc obj) = length obj"
    if "distinct (map fst obj)" "minimumOccurrence acc \<le> 0" "minimumScoreOccurrence acc \<le> 0"
      "notTruncated acc obj"
  proof -
    from 4 [OF that(1-3)] have "set (map fst (filterPass acc obj)) = set (map fst obj)"
      and "length (map fst (filterPass acc obj)) = length (map fst obj)"
      by simp_all
    with 5 [OF that(4)] 6 [OF that(4)] show ?thesis by simp
  qed
  from 1 2 3 4 5 7 show ?thesis by (simp only:) blast
qed

text \<open>
  With both counts at 0 and no cap the two keys are returned, \<open>bob\<close> with a single
  occurrence of score 0.2.
\<close>

theorem thresholds_are_not_validated_witness:
  "groupsWellFormed [(''alice'', [0.9, 0.6, 0.95 :: real]), (''bob'', [0.2])] \<and>
   minimumOccurrence
     (\<lparr>score = (\<lambda>x. x), minimumOccurrence = 0, minimumScore = 0.85,
       minimumScoreOccurrence = 0, maximumOccurrenceCount = None\<rparr> :: real accessor) \<le> 0 \<and>
   minimumScoreOccurrence
     (\<lparr>score = (\<lambda>x. x), minimumOccurrence = 0, minimumScore = 0.85,
       minimumScoreOccurrence = 0, maximumOccurrenceCount = None\<rparr> :: real accessor) \<le> 0 \<and>
   notTruncated
     \<lparr>score = (\<lambda>x. x), minimumOccurrence = 0, minimumScore = 0.85,
      minimumScoreOccurrence = 0, maximumOccurrenceCount = None\<rparr>
     [(''alice'', [0.9, 0.6, 0.95 :: real]), (''bob'', [0.2])] \<and>
   filterOccurrences
     \<lparr>score = (\<lambda>x. x), minimumOccurrence = 0, minimumScore = 0.85,
      minimumScoreOccurrence = 0, maximumOccurrenceCount = None\<rparr>
     [(''alice'', [0.9, 0.6, 0.95 :: real]), (''bob'', [0.2])]
     = Inr [\<lparr>occurrences = [0.95]\<rparr>, \<lparr>occurrences = [0.2]\<rparr>] \<and>
   map fst (filterPass
     \<lparr>score = (\<lambda>x. x), minimumOccurrence = 0, minimumScore = 0.85,
      minimumScoreOccurrence = 0, maximumOccurrenceCount = None\<rparr>
     [(''alice'', [0.9, 0.6, 0.95 :: real]), (''bob'', [0.2])]) = [''alice'', ''bob''] \<and>
   keptKeys
     \<lparr>score = (\<lambda>x. x), minimumOccurrence = 0, minimumScore = 0.85,
      minimumScoreOccurrence = 0, maximumOccurrenceCount = None\<rparr>
     [(''alice'', [0.9, 0.6, 0.95 :: real]), (''bob'', [0.2])] = [''alice'', ''bob'']"
proof -
  let ?obj = "[(''alice'', [0.9, 0.6, 0.95 :: real]), (''bob'', [0.2])]"
  let ?acc = "\<lparr>score = (\<lambda>x. x), minimumOccurrence = 0, minimumScore = 0.85,
      minimumScoreOccurrence = 0, maximumOccurrenceCount = None\<rparr> :: real accessor"
  have wf: "groupsWellFormed ?obj"
    by code_simp
  then have d: "distinct (map fst ?obj)"
    by (simp add: groupsWellFormed_def)
  have nt: "notTruncated ?acc ?obj"
    by (simp add: notTruncated_def)
  have entries: "map snd (keptEntries ?acc ?obj) = [\<lparr>occurrences = [0.95]\<rparr>, \<lparr>occurrences = [0.2]\<rparr>]"
    by code_simp
  have keys: "keptKeys ?acc ?obj = [''alice'', ''bob'']"
    by code_simp
  from thresholds_are_not_validated [of ?acc ?obj] wf d
  have "filterOccurrences ?acc ?obj = Inr (map snd (keptEntries ?acc ?obj))"
    and "map fst (filterPass ?acc ?obj) = map fst ?obj"
    by simp_all
  with wf nt entries keys show ?thesis by simp
qed

text \<open>
  C4 as stated fails: with \<open>minimumOccurrence = 0\<close> the call returns an array and
  raises nothing.
\<close>

theorem minimumOccurrence_zero_counterexample:
  "filterOccurrences
     \<lparr>score = (\<lambda>x. x), minimumOccurrence = 0, minimumScore = 0.85,
      minimumScoreOccurrence = 2, maximumOccurrenceCount = None\<rparr>
     [(''alice'', [0.9, 0.6, 0.95 :: real])]
     = Inr [\<lparr>occurrences = [0.95]\<rparr>] \<and>
   filterOccurrences
     \<lparr>score = (\<lambda>x. x), minimumOccurrence = 0, minimumScore = 0.85,
      minimumScoreOccurrence = 2, maximumOccurrenceCount = None\<rparr>
     [(''alice'', [0.9, 0.6, 0.95 :: real])]
     \<noteq> Inl ConfigurationError"
  by code_simp

text \<open>
  C5, as the code has it. In a call where no kept group can be empty,
  \<open>filterOccurrences\<close> returns an array that is sorted by the score of the retained
  occurrence, descending; entries of equal score keep the relative order the first loop
  left them in; the array is a prefix of the sorted survivors, so every survivor that
  is left out scores at most as much as every entry that is returned. When
  \<open>maximumOccurrenceCount\<close> is a number \<open>N\<close> of at least 1, the array has the \<open>N\<close>
  highest-scoring survivors, or all of them when there are fewer, and so at most \<open>N\<close>
  entries. (The cap 0 does not truncate: see C10.)
\<close>

theorem result_sorted_and_truncated:
  assumes "callWellFormed acc obj"
  shows "filterOccurrences acc obj = Inr (map snd (keptEntries acc obj)) \<and>
         sorted_wrt (\<lambda>a b. entryScore acc a \<ge> entryScore acc b) (map snd (keptEntries acc obj)) \<and>
         (\<forall>s. prefix (filter (\<lambda>p. entryScore acc (snd p) = s) (keptEntries acc obj))
                     (filter (\<lambda>p. entryScore acc (snd p) = s) (keyedResult (filterPass acc obj)))) \<and>
         set (keptEntries acc obj) \<subseteq> set (keyedResult (filterPass acc obj)) \<and>
         fst ` set (keyedResult (filterPass acc obj)) =
           {k. \<exists>occs. map_of obj k = Some occs \<and> passesBothBars acc occs} \<and>
         (\<forall>p \<in> set (keyedResult (filterPass acc obj)) - set (keptEntries acc obj).
            \<forall>q \<in> set (keptEntries acc obj). entryScore acc (snd p) \<le> entryScore acc (snd q)) \<and>
         (\<forall>N. maximumOccurrenceCount acc = Some N \<and> N \<ge> 1 \<longrightarrow>
            length (keptEntries acc obj) =
              min (nat N) (length (filter (\<lambda>(k, occs). passesBothBars acc occs) obj)) \<and>
            int (length (keptEntries acc obj)) \<le> N)"
proof -
  let ?K = "keyedResult (filterPass acc obj)"
  let ?f = "\<lambda>p. entryScore acc (snd p)"
  let ?S = "js_sort (\<lambda>a b. ?f b - ?f a) ?K"
  from assms have d: "distinct (map fst obj)" by (simp add: callWellFormed_def)
  have kept: "keptEntries acc obj = truncateResult acc ?S"
    by (simp add: keptEntries_def keyed_compare_eq)
  obtain n where n: "keptEntries acc obj = take n ?S"
    using truncateResult_take [of acc ?S] kept by auto
  have sorted_S: "sorted_wrt (\<lambda>a b. ?f a \<ge> ?f b) ?S"
    by (rule js_sort_sorted)
  have distinct_S: "distinct ?S"
    using distinct_keyedResult [OF distinct_filterPass [OF d]] by simp
  have 1: "filterOccurrences acc obj = Inr (map snd (keptEntries acc obj))"
    using assms by (rule filterOccurrences_returns_keptEntries)
  have "sorted_wrt (\<lambda>a b. ?f a \<ge> ?f b) (keptEntries acc obj)"
    unfolding n using sorted_S by (rule sorted_wrt_take)
  then have 2: "sorted_wrt (\<lambda>a b. entryScore acc a \<ge> entryScore acc b) (map snd (keptEntries acc obj))"
    by (simp add: sorted_wrt_map)
  have 3: "\<forall>s. prefix (filter (\<lambda>p. ?f p = s) (keptEntries acc obj)) (filter (\<lambda>p. ?f p = s) ?K)"
  proof
    fix s
    have "prefix (filter (\<lambda>p. ?f p = s) (take n ?S)) (filter (\<lambda>p. ?f p = s) ?S)"
      by (rule prefix_filter_take)
    then show "prefix (filter (\<lambda>p. ?f p = s) (keptEntries acc obj)) (filter (\<lambda>p. ?f p = s) ?K)"
      by (simp add: n js_sort_stable)
  qed
  have 4: "set (keptEntries acc obj) \<subseteq> set ?K"
    by (rule keptEntries_subset)
  have "fst ` set ?K = set (map fst ?K)" by simp
  then have 5: "fst ` set ?K = {k. \<exists>occs. map_of obj k = Some occs \<and> passesBothBars acc occs}"
    unfolding keys_keyedResult by (simp add: keys_filterPass_set [OF d])
  have 6: "\<forall>p \<in> set ?K - set (keptEntries acc obj). \<forall>q \<in> set (keptEntries acc obj). ?f p \<le> ?f q"
  proof (intro ballI)
    fix p q
    assume p: "p \<in> set ?K - set (keptEntries acc obj)" and q: "q \<in> set (keptEntries acc obj)"
    have "set ?K - set (take n ?S) = set (drop n ?S)"
      using set_diff_take [OF distinct_S, of n] by simp
    with p have "p \<in> set (drop n ?S)" by (simp add: n)
    moreover from q have "q \<in> set (take n ?S)" by (simp add: n)
    ultimately show "?f p \<le> ?f q"
      using sorted_wrt_take_drop [OF sorted_S] by blast
  qed
  have 7: "\<forall>N. maximumOccurrenceCount acc = Some N \<and> N \<ge> 1 \<longrightarrow>
            length (keptEntries acc obj) =
              min (nat N) (length (filter (\<lambda>(k, occs). passesBothBars acc occs) obj)) \<and>
            int (length (keptEntries acc obj)) \<le> N"
  proof (intro allI impI)
    fix N
    assume "maximumOccurrenceCount acc = Some N \<and> N \<ge> 1"
    then have "keptEntries acc obj = take (nat N) ?S" and "N \<ge> 1"
      by (simp_all add: kept truncateResult_positive_cap)
    then show "length (keptEntries acc obj) =
              min (nat N) (length (filter (\<lambda>(k, occs). passesBothBars acc occs) obj)) \<and>
            int (length (keptEntries acc obj)) \<le> N"
      by (auto simp: length_filterPass [OF d] min_def)
  qed
  from 1 2 3 4 5 6 7 show ?thesis by blast
qed

text \<open>
  The third scenario of the specification: both keys pass, \<open>b\<close> scores higher, and
  the cap 1 leaves \<open>b\<close> alone.
\<close>

theorem result_sorted_and_truncated_witness:
  "callWellFormed
      \<lparr>score = (\<lambda>x. x), minimumOccurrence = 2, minimumScore = 0.5,
       minimumScoreOccurrence = 1, maximumOccurrenceCount = Some 1\<rparr>
      [(''a'', [0.9, 0.9, 0.9 :: real]), (''b'', [0.99, 0.99])] \<and>
   filterOccurrences
      \<lparr>score = (\<lambda>x. x), minimumOccurrence = 2, minimumScore = 0.5,
       minimumScoreOccurrence = 1, maximumOccurrenceCount = Some 1\<rparr>
      [(''a'', [0.9, 0.9, 0.9 :: real]), (''b'', [0.99, 0.99])]
     = Inr [\<lparr>occurrences = [0.99]\<rparr>] \<and>
   keptKeys
      \<lparr>score = (\<lambda>x. x), minimumOccurrence = 2, minimumScore = 0.5,
       minimumScoreOccurrence = 1, maximumOccurrenceCount = Some 1\<rparr>
      [(''a'', [0.9, 0.9, 0.9 :: real]), (''b'', [0.99, 0.99])] = [''b'']"
proof -
  let ?obj = "[(''a'', [0.9, 0.9, 0.9 :: real]), (''b'', [0.99, 0.99])]"
  let ?acc = "\<lparr>score = (\<lambda>x. x), minimumOccurrence = 2, minimumScore = 0.5,
       minimumScoreOccurrence = 1, maximumOccurrenceCount = Some 1\<rparr> :: real accessor"
  have wf: "callWellFormed ?acc ?obj"
    by code_simp
  have entries: "keptEntries ?acc ?obj = [(''b'', \<lparr>occurrences = [0.99]\<rparr>)]"
    by code_simp
  from result_sorted_and_truncated [OF wf] wf entries
  show ?thesis by (simp add: keptKeys_def)
qed

text \<open>
  C5 as stated fails for the cap \<open>N = 0\<close>: one key passes, the cap is set to 0, and
  the returned array has one entry.
\<close>

theorem cap_zero_counterexample:
  "filterOccurrences
      \<lparr>score = (\<lambda>x. x), minimumOccurrence = 2, minimumScore = 0.5,
       minimumScoreOccurrence = 1, maximumOccurrenceCount = Some 0\<rparr>
      [(''a'', [0.9, 0.9 :: real])]
     = Inr [\<lparr>occurrences = [0.9]\<rparr>] \<and>
   \<not> (case filterOccurrences
            \<lparr>score = (\<lambda>x. x), minimumOccurrence = 2, minimumScore = 0.5,
             minimumScoreOccurrence = 1, maximumOccurrenceCount = Some 0\<rparr>
            [(''a'', [0.9, 0.9 :: real])] of
         Inl e \<Rightarrow> True
       | Inr result \<Rightarrow> int (length result) \<le> 0)"
  by code_simp

text \<open>
  C6. A keyword detection whose class is a name every object inherits, here
  \<open>constructor\<close>, is not appended to a group: \<open>keywordToOccurrences[keyword.class]\<close>
  is then the inherited function, which is truthy and has no \<open>push\<close>, and line 278
  raises a \<open>TypeError\<close> that ends the summary. (In the runs that complete, lemmas
  \<open>unnamed_face_in_no_group\<close>, \<open>unnamed_face_in_no_summary\<close> and
  \<open>keyword_in_its_group\<close> give what the claim says; lemmas \<open>collect_returns\<close> and
  \<open>collect_Inr_keys\<close> say which runs complete.)
\<close>

theorem inherited_class_raises_TypeError:
  "keyword_class (exampleKeywords 2) = ''constructor'' \<and>
   keywordAddresses constructorImage = [2] \<and>
   (case collect exampleRequest [constructorImage] exampleFaces exampleKeywords of
      Inl e \<Rightarrow> e = TypeError
    | Inr st \<Rightarrow> False) \<and>
   (case summarize exampleRequest [constructorImage] exampleFaces exampleKeywords of
      Inl e \<Rightarrow> e = TypeError
    | Inr result \<Rightarrow> False) \<and>
   (case summarize exampleRequest (exampleImages @ [constructorImage]) exampleFaces
           exampleKeywords of
      Inl e \<Rightarrow> e = TypeError
    | Inr result \<Rightarrow> False)"
  by code_simp

text \<open>
  C7, as the code has it. For a fixed group map and score function, raising
  \<open>minimumOccurrence\<close> or \<open>minimumScore\<close> never adds a key to the keys that survive
  the first loop; and it never adds a key to the keys of the returned array when the
  array of the lower thresholds is not cut by \<open>maximumOccurrenceCount\<close>.
\<close>

theorem surviving_keys_monotone:
  assumes "distinct (map fst obj)"
    and "score acc' = score acc"
    and "minimumScoreOccurrence acc' = minimumScoreOccurrence acc"
    and "minimumOccurrence acc \<le> minimumOccurrence acc'"
    and "minimumScore acc \<le> minimumScore acc'"
  shows "fst ` set (filterPass acc' obj) \<subseteq> fst ` set (filterPass acc obj) \<and>
         (notTruncated acc obj \<longrightarrow> set (keptKeys acc' obj) \<subseteq> set (keptKeys acc obj))"
proof -
  have 1: "fst ` set (filterPass acc' obj) \<subseteq> fst ` set (filterPass acc obj)"
    unfolding keys_filterPass_set [OF assms(1)]
    using passesBothBars_mono [OF assms(2-5)] by blast
  have "set (keptKeys acc' obj) \<subseteq> set (keptKeys acc obj)" if "notTruncated acc obj"
    using keptKeys_subset [of acc' obj] 1 notTruncated_keptKeys [OF that] by blast
  with 1 show ?thesis by blast
qed

text \<open>
  Raising \<open>minimumOccurrence\<close> from 2 to 3 drops \<open>b\<close>, which has two occurrences;
  there is no cap.
\<close>

theorem surviving_keys_monotone_witness:
  "distinct (map fst [(''a'', [0.9, 0.9, 0.9 :: real]), (''b'', [0.99, 0.99])]) \<and>
   keptKeys
     \<lparr>score = (\<lambda>x. x), minimumOccurrence = 2, minimumScore = 0.5,
      minimumScoreOccurrence = 1, maximumOccurrenceCount = None\<rparr>
     [(''a'', [0.9, 0.9, 0.9 :: real]), (''b'', [0.99, 0.99])] = [''b'', ''a''] \<and>
   keptKeys
     \<lparr>score = (\<lambda>x. x), minimumOccurrence = 3, minimumScore = 0.5,
      minimumScoreOccurrence = 1, maximumOccurrenceCount = None\<rparr>
     [(''a'', [0.9, 0.9, 0.9 :: real]), (''b'', [0.99, 0.99])] = [''a''] \<and>
   set (keptKeys
     \<lparr>score = (\<lambda>x. x), minimumOccurrence = 3, minimumScore = 0.5,
      minimumScoreOccurrence = 1, maximumOccurrenceCount = None\<rparr>
     [(''a'', [0.9, 0.9, 0.9 :: real]), (''b'', [0.99, 0.99])])
   \<subseteq> set (keptKeys
     \<lparr>score = (\<lambda>x. x), minimumOccurrence = 2, minimumScore = 0.5,
      minimumScoreOccurrence = 1, maximumOccurrenceCount = None\<rparr>
     [(''a'', [0.9, 0.9, 0.9 :: real]), (''b'', [0.99, 0.99])])"
proof -
  let ?obj = "[(''a'', [0.9, 0.9, 0.9 :: real]), (''b'', [0.99, 0.99])]"
  let ?lo = "\<lparr>score = (\<lambda>x. x), minimumOccurrence = 2, minimumScore = 0.5,
      minimumScoreOccurrence = 1, maximumOccurrenceCount = None\<rparr> :: real accessor"
  let ?hi = "\<lparr>score = (\<lambda>x. x), minimumOccurrence = 3, minimumScore = 0.5,
      minimumScoreOccurrence = 1, maximumOccurrenceCount = None\<rparr> :: real accessor"
  have d: "distinct (map fst ?obj)"
    by simp
  have nt: "notTruncated ?lo ?obj"
    by (simp add: notTruncated_def)
  have lo: "keptKeys ?lo ?obj = [''b'', ''a'']"
    by code_simp
  have hi: "keptKeys ?hi ?obj = [''a'']"
    by code_simp
  have "set (keptKeys ?hi ?obj) \<subseteq> set (keptKeys ?lo ?obj)"
    using surviving_keys_monotone [of ?obj ?hi ?lo] d nt by simp
  with d lo hi show ?thesis by blast
qed

text \<open>
  C7 as stated fails under a cap. With \<open>maximumOccurrenceCount = 1\<close>, the array for
  \<open>minimumOccurrence = 2\<close> holds \<open>b\<close> alone (best score 0.99); for
  \<open>minimumOccurrence = 3\<close> the key \<open>b\<close> is dropped and \<open>a\<close>, which was cut off
  before, is returned. The same happens when \<open>minimumScore\<close> goes from 0.5 to 0.85 on
  the second map.
\<close>

theorem raised_threshold_adds_key_counterexample:
  "keptKeys
     \<lparr>score = (\<lambda>x. x), minimumOccurrence = 2, minimumScore = 0.5,
      minimumScoreOccurrence = 1, maximumOccurrenceCount = Some 1\<rparr>
     [(''a'', [0.9, 0.9, 0.9 :: real]), (''b'', [0.99, 0.99])] = [''b''] \<and>
   keptKeys
     \<lparr>score = (\<lambda>x. x), minimumOccurrence = 3, minimumScore = 0.5,
      minimumScoreOccurrence = 1, maximumOccurrenceCount = Some 1\<rparr>
     [(''a'', [0.9, 0.9, 0.9 :: real]), (''b'', [0.99, 0.99])] = [''a''] \<and>
   filterOccurrences
     \<lparr>score = (\<lambda>x. x), minimumOccurrence = 2, minimumScore = 0.5,
      minimumScoreOccurrence = 1, maximumOccurrenceCount = Some 1\<rparr>
     [(''a'', [0.9, 0.9, 0.9 :: real]), (''b'', [0.99, 0.99])] = Inr [\<lparr>occurrences = [0.99]\<rparr>] \<and>
   filterOccurrences
     \<lparr>score = (\<lambda>x. x), minimumOccurrence = 3, minimumScore = 0.5,
      minimumScoreOccurrence = 1, maximumOccurrenceCount = Some 1\<rparr>
     [(''a'', [0.9, 0.9, 0.9 :: real]), (''b'', [0.99, 0.99])] = Inr [\<lparr>occurrences = [0.9]\<rparr>] \<and>
   keptKeys
     \<lparr>score = (\<lambda>x. x), minimumOccurrence = 2, minimumScore = 0.5,
      minimumScoreOccurrence = 2, maximumOccurrenceCount = Some 1\<rparr>
     [(''a'', [0.9, 0.9 :: real]), (''b'', [0.99, 0.6])] = [''b''] \<and>
   keptKeys
     \<lparr>score = (\<lambda>x. x), minimumOccurrence = 2, minimumScore = 0.85,
      minimumScoreOccurrence = 2, maximumOccurrenceCount = Some 1\<rparr>
     [(''a'', [0.9, 0.9 :: real]), (''b'', [0.99, 0.6])] = [''a'']"
  by code_simp

text \<open>
  C8, as the code has it. The summary computation writes to the detection objects of the
  images: every face detection with a name and every keyword detection that an image
  refers to gets the properties \<open>image_id\<close>, \<open>image_url\<close> and \<open>timecode\<close> of an
  image that refers to it. Nothing else is written: the identity of a face, the class and
  the score of a keyword are as they were, and a detection that is not filed (a face
  without a name, a detection no image refers to) is unchanged. The filter writes to no
  detection: the store of the result is the store the collecting loop left.
\<close>

theorem summary_decorates_detections:
  assumes "summarize req images fs ks = Inr (st, out)"
  shows "collect req images fs ks = Inr st \<and>
         (\<forall>a. identity (faceStore st a) = identity (fs a)) \<and>
         (\<forall>a. keyword_class (keywordStore st a) = keyword_class (ks a) \<and>
              keyword_score (keywordStore st a) = keyword_score (ks a)) \<and>
         (\<forall>a. hasName (fs a) \<and> (\<exists>img \<in> set images. a \<in> set (faceAddresses img)) \<longrightarrow>
              (\<exists>img \<in> set images. a \<in> set (faceAddresses img) \<and>
                 faceStore st a = decorate req img (fs a))) \<and>
         (\<forall>a. \<not> (hasName (fs a) \<and> (\<exists>img \<in> set images. a \<in> set (faceAddresses img))) \<longrightarrow>
              faceStore st a = fs a) \<and>
         (\<forall>a. (\<exists>img \<in> set images. a \<in> set (keywordAddresses img)) \<longrightarrow>
              (\<exists>img \<in> set images. a \<in> set (keywordAddresses img) \<and>
                 keywordStore st a = decorate req img (ks a))) \<and>
         (\<forall>a. \<not> (\<exists>img \<in> set images. a \<in> set (keywordAddresses img)) \<longrightarrow>
              keywordStore st a = ks a)"
proof -
  note c = summarize_Inr(1) [OF assms]
  from collect_collected [OF c]
  have f: "faceStoreInvariant req images fs (faceStore st)"
    and k: "keywordStoreInvariant req images ks (keywordStore st)"
    by (simp_all add: collected_def)
  have 1: "\<forall>a. identity (faceStore st a) = identity (fs a)"
    using faceStoreInvariant_identity [OF f] by simp
  have 2: "\<forall>a. keyword_class (keywordStore st a) = keyword_class (ks a) \<and>
              keyword_score (keywordStore st a) = keyword_score (ks a)"
    using keywordStoreInvariant_class [OF k] keywordStoreInvariant_score [OF k] by simp
  have 3: "\<forall>a. hasName (fs a) \<and> (\<exists>img \<in> set images. a \<in> set (faceAddresses img)) \<longrightarrow>
              (\<exists>img \<in> set images. a \<in> set (faceAddresses img) \<and>
                 faceStore st a = decorate req img (fs a))"
    using collect_faceVisited [OF c] unfolding faceVisited_def by blast
  have 4: "\<forall>a. \<not> (hasName (fs a) \<and> (\<exists>img \<in> set images. a \<in> set (faceAddresses img))) \<longrightarrow>
              faceStore st a = fs a"
    using f unfolding faceStoreInvariant_def by blast
  have 5: "\<forall>a. (\<exists>img \<in> set images. a \<in> set (keywordAddresses img)) \<longrightarrow>
              (\<exists>img \<in> set images. a \<in> set (keywordAddresses img) \<and>
                 keywordStore st a = decorate req img (ks a))"
    using collect_keywordVisited [OF c] unfolding keywordVisited_def by blast
  have 6: "\<forall>a. \<not> (\<exists>img \<in> set images. a \<in> set (keywordAddresses img)) \<longrightarrow>
              keywordStore st a = ks a"
    using k unfolding keywordStoreInvariant_def by blast
  from c 1 2 3 4 5 6 show ?thesis by blast
qed

text \<open>
  In the video of three frames, the face 0 (\<open>Alice\<close>, in the first frame) is decorated,
  and the face 3 of the same frame, which has no name, is as it was.
\<close>

theorem summary_decorates_detections_witness:
  "\<exists>st out.
     summarize exampleRequest exampleImages exampleFaces exampleKeywords = Inr (st, out) \<and>
     collect exampleRequest exampleImages exampleFaces exampleKeywords = Inr st \<and>
     identity (faceStore st 0) = identity (exampleFaces 0) \<and>
     (\<exists>img \<in> set exampleImages. 0 \<in> set (faceAddresses img) \<and>
        faceStore st 0 = decorate exampleRequest img (exampleFaces 0)) \<and>
     faceStore st 3 = exampleFaces 3"
proof -
  have "\<not> isl (summarize exampleRequest exampleImages exampleFaces exampleKeywords)"
    by code_simp
  then obtain st out
    where run: "summarize exampleRequest exampleImages exampleFaces exampleKeywords = Inr (st, out)"
    by (cases "summarize exampleRequest exampleImages exampleFaces exampleKeywords") auto
  have named: "hasName (exampleFaces 0)" and unnamed: "\<not> hasName (exampleFaces 3)"
    by code_simp+
  have referred: "\<exists>img \<in> set exampleImages. 0 \<in> set (faceAddresses img)"
    by code_simp
  from summary_decorates_detections [OF run] named unnamed referred
  have "collect exampleRequest exampleImages exampleFaces exampleKeywords = Inr st \<and>
     identity (faceStore st 0) = identity (exampleFaces 0) \<and>
     (\<exists>img \<in> set exampleImages. 0 \<in> set (faceAddresses img) \<and>
        faceStore st 0 = decorate exampleRequest img (exampleFaces 0)) \<and>
     faceStore st 3 = exampleFaces 3"
    by blast
  with run show ?thesis by blast
qed

text \<open>
  C8 as stated fails: after the summary of the video of three frames, the face 0 and the
  keyword 0, which had none of the three properties, have them.
\<close>

theorem detections_are_written_counterexample:
  "image_id (exampleFaces 0) = None \<and>
   image_url (exampleFaces 0) = None \<and>
   timecode (exampleFaces 0) = None \<and>
   image_id (exampleKeywords 0) = None \<and>
   (case summarize exampleRequest exampleImages exampleFaces exampleKeywords of
      Inl e \<Rightarrow> False
    | Inr (st, out) \<Rightarrow>
        image_id (faceStore st 0) = Some ''f1'' \<and>
        image_url (faceStore st 0) = Some ''https://example.org/images/image/f1.jpg'' \<and>
        timecode (faceStore st 0) = Some 0 \<and>
        image_id (keywordStore st 0) = Some ''f1'' \<and>
        faceStore st 0 \<noteq> exampleFaces 0 \<and>
        keywordStore st 0 \<noteq> exampleKeywords 0)"
  by code_simp




text \<open>
  C10. When \<open>maximumOccurrenceCount\<close> is 0 the guard of line 335 is false and nothing
  is truncated: the returned array is the whole sorted array of the survivors, one entry
  for each key that passes both bars, as many as there are such keys.
\<close>

theorem cap_zero_does_not_truncate:
  assumes "maximumOccurrenceCount acc = Some 0" and "callWellFormed acc obj"
  shows "filterOccurrences acc obj =
           Inr (js_sort (compareEntries acc) (collectResult (filterPass acc obj))) \<and>
         filterOccurrences acc obj = Inr (map snd (keptEntries acc obj)) \<and>
         set (keptKeys acc obj) = {k. \<exists>occs. map_of obj k = Some occs \<and> passesBothBars acc occs} \<and>
         length (keptKeys acc obj) = length (filter (\<lambda>(k, occs). passesBothBars acc occs) obj)"
proof -
  from assms(2) have d: "distinct (map fst obj)" by (simp add: callWellFormed_def)
  have none: "\<And>xs :: (string \<times> 'a entry) list. truncateResult acc xs = xs"
    using assms(1) by (simp add: truncateResult_no_cap)
  have none': "\<And>xs :: 'a entry list. truncateResult acc xs = xs"
    using assms(1) by (simp add: truncateResult_no_cap)
  have 1: "filterOccurrences acc obj =
           Inr (js_sort (compareEntries acc) (collectResult (filterPass acc obj)))"
    by (simp add: filterOccurrences_returns [OF assms(2)] none')
  have 2: "filterOccurrences acc obj = Inr (map snd (keptEntries acc obj))"
    using assms(2) by (rule filterOccurrences_returns_keptEntries)
  have keys: "keptKeys acc obj = map fst (js_sort (\<lambda>a b. compareEntries acc (snd a) (snd b))
                (keyedResult (filterPass acc obj)))"
    by (simp add: keptKeys_def keptEntries_def none)
  have "set (keptKeys acc obj) = set (map fst (keyedResult (filterPass acc obj)))"
    unfolding keys by simp
  then have 3: "set (keptKeys acc obj) =
      {k. \<exists>occs. map_of obj k = Some occs \<and> passesBothBars acc occs}"
    unfolding keys_keyedResult by (simp add: keys_filterPass_set [OF d])
  have 4: "length (keptKeys acc obj) = length (filter (\<lambda>(k, occs). passesBothBars acc occs) obj)"
    unfolding keys by (simp add: length_filterPass [OF d])
  from 1 2 3 4 show ?thesis by blast
qed

text \<open>Three keys pass and the cap is 0: the three entries are returned, best first.\<close>

theorem cap_zero_does_not_truncate_witness:
  "maximumOccurrenceCount
      (\<lparr>score = (\<lambda>x. x), minimumOccurrence = 2, minimumScore = 0.5,
        minimumScoreOccurrence = 1, maximumOccurrenceCount = Some 0\<rparr> :: real accessor) = Some 0 \<and>
   callWellFormed
      \<lparr>score = (\<lambda>x. x), minimumOccurrence = 2, minimumScore = 0.5,
       minimumScoreOccurrence = 1, maximumOccurrenceCount = Some 0\<rparr>
      [(''a'', [0.9, 0.7 :: real]), (''b'', [0.99, 0.99]), (''c'', [0.6, 0.8])] \<and>
   filterOccurrences
      \<lparr>score = (\<lambda>x. x), minimumOccurrence = 2, minimumScore = 0.5,
       minimumScoreOccurrence = 1, maximumOccurrenceCount = Some 0\<rparr>
      [(''a'', [0.9, 0.7 :: real]), (''b'', [0.99, 0.99]), (''c'', [0.6, 0.8])]
     = Inr [\<lparr>occurrences = [0.99]\<rparr>, \<lparr>occurrences = [0.9]\<rparr>, \<lparr>occurrences = [0.8]\<rparr>] \<and>
   length (keptKeys
      \<lparr>score = (\<lambda>x. x), minimumOccurrence = 2, minimumScore = 0.5,
       minimumScoreOccurrence = 1, maximumOccurrenceCount = Some 0\<rparr>
      [(''a'', [0.9, 0.7 :: real]), (''b'', [0.99, 0.99]), (''c'', [0.6, 0.8])]) = 3"
proof -
  let ?obj = "[(''a'', [0.9, 0.7 :: real]), (''b'', [0.99, 0.99]), (''c'', [0.6, 0.8])]"
  let ?acc = "\<lparr>score = (\<lambda>x. x), minimumOccurrence = 2, minimumScore = 0.5,
       minimumScoreOccurrence = 1, maximumOccurrenceCount = Some 0\<rparr> :: real accessor"
  have cap: "maximumOccurrenceCount ?acc = Some 0"
    by simp
  have wf: "callWellFormed ?acc ?obj"
    by code_simp
  have sorted: "js_sort (compareEntries ?acc) (collectResult (filterPass ?acc ?obj)) =
      [\<lparr>occurrences = [0.99]\<rparr>, \<lparr>occurrences = [0.9]\<rparr>, \<lparr>occurrences = [0.8]\<rparr>]"
    by code_simp
  have passing: "length (filter (\<lambda>(k, occs). passesBothBars ?acc occs) ?obj) = 3"
    by code_simp
  from cap_zero_does_not_truncate [OF cap wf] cap wf sorted passing
  show ?thesis by simp
qed


end
